theory Spec2Isabelle
  imports Complex_Main
begin

section \<open>The lyric alignment engine of align\_whisper.py\<close>

text \<open>
  The development embeds \<^verbatim>\<open>normalize_text\<close>, \<open>word_similarity\<close> and
  \<open>fallback_align\<close> of \<^verbatim>\<open>src/align_whisper.py\<close>.

  Modelling decisions:
  \<^item> Times are modelled as \<open>real\<close>: the sums and quotients that make the token and
    result times are exact, their rounding is not represented.
  \<^item> Scores are doubles. The match scores steer the search through \<open>score > best_score\<close>,
    and sums that are equal as reals can differ as doubles, so the score of a candidate
    is accumulated as the code accumulates it: every similarity enters as the double
    nearest to its quotient, and every addition is rounded to the nearest double
    (\<open>double\<close> below).
  \<^item> Python strings are modelled as \<open>string\<close>. The character classes of
    \<open>str.lower\<close>, \<open>str.strip\<close>, \<open>str.split\<close> and of the patterns \<^verbatim>\<open>\w\<close>, \<^verbatim>\<open>\s\<close>
    are those of ASCII; a character outside ASCII is treated as neither a word character
    nor white space.
  \<^item> List indices and lengths are \<open>nat\<close>. Every index the source computes is a sum
    of non-negative numbers, or \<open>len - 1\<close> of a list already known to be non-empty, so
    Python's negative indexing never comes into play.
  \<^item> Every operation of the source that can raise is a branch of the model: a list
    read out of range is \<open>IndexError\<close>, a division by zero is \<open>ZeroDivisionError\<close>.
\<close>

subsection \<open>Errors and the partial operations\<close>

datatype py_error = IndexError | ZeroDivisionError

definition py_index :: "'a list \<Rightarrow> nat \<Rightarrow> py_error + 'a" where
  "py_index xs i = (if i < length xs then Inr (xs ! i) else Inl IndexError)"

definition py_truediv :: "real \<Rightarrow> real \<Rightarrow> py_error + real" where
  "py_truediv x y = (if y = 0 then Inl ZeroDivisionError else Inr (x / y))"

text \<open>\<open>xs[-1]\<close>\<close>

definition py_last :: "'a list \<Rightarrow> py_error + 'a" where
  "py_last xs = (if xs = [] then Inl IndexError else Inr (last xs))"

subsection \<open>String operations\<close>

text \<open>
  White space as \<open>str.strip\<close>, \<open>str.split\<close> and the pattern \<^verbatim>\<open>\s\<close> have it on ASCII:
  the characters 9 to 13, the separators 28 to 31, and the blank. Word characters as the
  pattern \<^verbatim>\<open>\w\<close> has them on ASCII: digits, letters and the underscore.
\<close>

definition is_space :: "char \<Rightarrow> bool" where
  "is_space c = (let n = (of_char c :: nat) in (9 \<le> n \<and> n \<le> 13) \<or> (28 \<le> n \<and> n \<le> 32))"

definition is_word_char :: "char \<Rightarrow> bool" where
  "is_word_char c = (let n = (of_char c :: nat) in
     (48 \<le> n \<and> n \<le> 57) \<or> (65 \<le> n \<and> n \<le> 90) \<or> n = 95 \<or> (97 \<le> n \<and> n \<le> 122))"

definition lower_char :: "char \<Rightarrow> char" where
  "lower_char c = (let n = (of_char c :: nat) in if 65 \<le> n \<and> n \<le> 90 then char_of (n + 32) else c)"

text \<open>\<open>s.lower()\<close>\<close>

definition py_lower :: "string \<Rightarrow> string" where
  "py_lower s = map lower_char s"

text \<open>\<open>s.strip()\<close>\<close>

definition py_strip :: "string \<Rightarrow> string" where
  "py_strip s = rev (dropWhile is_space (rev (dropWhile is_space s)))"

text \<open>\<open>s.split()\<close>: the maximal runs of characters that are not white space.\<close>

function py_split :: "string \<Rightarrow> string list" where
  "py_split s =
     (case dropWhile is_space s of
        [] \<Rightarrow> []
      | c # cs \<Rightarrow> takeWhile (\<lambda>x. \<not> is_space x) (c # cs)
                 # py_split (dropWhile (\<lambda>x. \<not> is_space x) (c # cs)))"
  by pat_completeness auto
termination
proof (relation "measure length")
  show "wf (measure length)" by simp
next
  fix s :: string and c cs
  assume h: "dropWhile is_space s = c # cs"
  have nsp: "\<not> is_space c"
    using h hd_dropWhile [of is_space s] by auto
  have "length (dropWhile (\<lambda>x. \<not> is_space x) (c # cs)) \<le> length cs"
    using nsp by (simp add: length_dropWhile_le)
  also have "length cs < length (dropWhile is_space s)"
    using h by simp
  also have "\<dots> \<le> length s"
    by (rule length_dropWhile_le)
  finally show "(dropWhile (\<lambda>x. \<not> is_space x) (c # cs), s) \<in> measure length"
    by simp
qed

declare py_split.simps [simp del]

text \<open>\<open>' '.join(xs)\<close>\<close>

fun join_sp :: "string list \<Rightarrow> string" where
  "join_sp [] = []"
| "join_sp [x] = x"
| "join_sp (x # y # rest) = x @ CHR '' '' # join_sp (y # rest)"

text \<open>\<open>w in s\<close> on strings: \<open>w\<close> occurs as a contiguous substring of \<open>s\<close>.\<close>

fun is_substr :: "string \<Rightarrow> string \<Rightarrow> bool" where
  "is_substr w [] = (w = [])"
| "is_substr w (c # cs) = (take (length w) (c # cs) = w \<or> is_substr w cs)"

text \<open>\<open>re.sub(r'\s+', ' ', s)\<close>: every maximal run of white space becomes one blank.\<close>

function collapse_ws :: "string \<Rightarrow> string" where
  "collapse_ws [] = []"
| "collapse_ws (c # cs) =
     (if is_space c then CHR '' '' # collapse_ws (dropWhile is_space cs)
      else c # collapse_ws cs)"
  by pat_completeness auto
termination
  by (relation "measure length") (auto simp: length_dropWhile_le less_Suc_eq_le)

text \<open>\<open>normalize_text\<close> (lines 21 to 27).\<close>

definition normalize_text :: "string \<Rightarrow> string" where
  "normalize_text s =
     py_strip (collapse_ws (filter (\<lambda>c. is_word_char c \<or> is_space c) (py_lower s)))"

subsection \<open>Word similarity\<close>

text \<open>\<open>word_similarity\<close> (lines 29 to 38).\<close>

definition word_similarity :: "string \<Rightarrow> string \<Rightarrow> py_error + real" where
  "word_similarity w1 w2 =
     (let w1 = py_lower w1; w2 = py_lower w2 in
      if w1 = w2 then Inr 1
      else let chars1 = set w1; chars2 = set w2 in
        if chars1 = {} \<or> chars2 = {} then Inr 0
        else py_truediv (real (card (chars1 \<inter> chars2))) (real (card (chars1 \<union> chars2))))"

subsection \<open>Data\<close>

text \<open>
  The dictionaries of the source with their keys as fields: a transcript segment, an
  entry of \<open>words_timeline\<close> (written \<open>wtl\<close> below), and an entry of \<open>results\<close>, whose
  times are \<open>None\<close> or a number.
\<close>

record segment =
  seg_text :: string
  seg_start :: real
  seg_end :: real

record token =
  tok_word :: string
  tok_start :: real
  tok_end :: real

record result =
  res_line :: string
  res_start :: "real option"
  res_end :: "real option"

subsection \<open>Building the word timeline\<close>

text \<open>The body of the loop over the segments (lines 47 to 59): the tokens of one segment.\<close>

definition seg_tokens :: "segment \<Rightarrow> py_error + token list" where
  "seg_tokens seg =
     (let seg_words = py_split (normalize_text (seg_text seg)) in
      if seg_words = [] then Inr []
      else
        let seg_duration = seg_end seg - seg_start seg in
        case py_truediv seg_duration (real (length seg_words)) of
          Inl e \<Rightarrow> Inl e
        | Inr time_per_word \<Rightarrow>
            Inr (map (\<lambda>(i, w).
                   let word_start = seg_start seg + real i * time_per_word;
                       word_end = word_start + time_per_word
                   in \<lparr>tok_word = w, tok_start = word_start, tok_end = word_end\<rparr>)
                 (enumerate 0 seg_words)))"

text \<open>The loop over the segments (line 46), appending to \<open>words_timeline\<close>.\<close>

fun build_timeline :: "segment list \<Rightarrow> token list \<Rightarrow> py_error + token list" where
  "build_timeline [] words_timeline = Inr words_timeline"
| "build_timeline (seg # rest) words_timeline =
     (case seg_tokens seg of
        Inl e \<Rightarrow> Inl e
      | Inr toks \<Rightarrow> build_timeline rest (words_timeline @ toks))"

subsection \<open>Locating the anchor\<close>

text \<open>\<open>[words_timeline[start_idx + i]['word'] for i in ...]\<close>\<close>

fun window_words :: "token list \<Rightarrow> nat \<Rightarrow> nat list \<Rightarrow> py_error + string list" where
  "window_words wtl start_idx [] = Inr []"
| "window_words wtl start_idx (i # rest) =
     (case py_index wtl (start_idx + i) of
        Inl e \<Rightarrow> Inl e
      | Inr tok \<Rightarrow>
          (case window_words wtl start_idx rest of
             Inl e \<Rightarrow> Inl e
           | Inr ws \<Rightarrow> Inr (tok_word tok # ws)))"

text \<open>
  The loop of lines 72 to 78 over the candidate start indices; the pair is
  \<open>(best_start_score, best_start_pos)\<close>.
\<close>

fun anchor_loop :: "token list \<Rightarrow> string \<Rightarrow> nat list \<Rightarrow> nat \<times> nat \<Rightarrow> py_error + nat \<times> nat" where
  "anchor_loop wtl first_few_lyrics [] best = Inr best"
| "anchor_loop wtl first_few_lyrics (start_idx # rest) (best_start_score, best_start_pos) =
     (case window_words wtl start_idx [0..<min 15 (length wtl - start_idx)] of
        Inl e \<Rightarrow> Inl e
      | Inr ws \<Rightarrow>
          let test_window = join_sp ws;
              score = length (filter (\<lambda>w. is_substr w test_window) (py_split first_few_lyrics))
          in if score > best_start_score
             then anchor_loop wtl first_few_lyrics rest (score, start_idx)
             else anchor_loop wtl first_few_lyrics rest (best_start_score, best_start_pos))"

text \<open>\<open>first_few_lyrics\<close> (line 68), and the anchor search as a whole (lines 67 to 78).\<close>

definition first_few :: "string list \<Rightarrow> string" where
  "first_few lyrics_lines =
     join_sp (map normalize_text (filter (\<lambda>l. py_strip l \<noteq> []) (take 3 lyrics_lines)))"

definition find_anchor :: "token list \<Rightarrow> string list \<Rightarrow> py_error + nat" where
  "find_anchor wtl lyrics_lines =
     (case anchor_loop wtl (first_few lyrics_lines) [0..<min 50 (length wtl)] (0, 0) of
        Inl e \<Rightarrow> Inl e
      | Inr (best_start_score, best_start_pos) \<Rightarrow> Inr best_start_pos)"

subsection \<open>Double-precision arithmetic of the scores\<close>

text \<open>
  The values of Python's \<open>float\<close> are the binary64 numbers, and \<open>/\<close> and \<open>+\<close> return the
  binary64 number nearest to the exact result, the one with an even significand when two
  are equally near. \<open>double x\<close> is that number: \<open>exponent x\<close> is the integer \<open>e\<close> with
  \<open>2^e \<le> x < 2^(e+1)\<close>, the unit in the last place of a 53-bit significand is
  \<open>2^(e - 52)\<close>, and \<open>x\<close> is rounded to a multiple of that unit. The exponent range of
  binary64 is not represented (no overflow to infinity, no subnormal numbers): a score is
  0 or lies between the least similarity quotient and the number of words of a line.
\<close>

fun bit_length :: "nat \<Rightarrow> nat" where
  "bit_length n = (if n = 0 then 0 else Suc (bit_length (n div 2)))"

declare bit_length.simps [simp del]

definition pow2 :: "int \<Rightarrow> real" where
  "pow2 k = (if 0 \<le> k then 2 ^ nat k else 1 / 2 ^ nat (- k))"

definition exponent :: "real \<Rightarrow> int" where
  "exponent x =
     (if 1 \<le> x then int (bit_length (nat \<lfloor>x\<rfloor>)) - 1
      else - int (bit_length (nat (\<lceil>1 / x\<rceil> - 1))))"

definition round_half_even :: "real \<Rightarrow> int" where
  "round_half_even q =
     (let n = \<lfloor>q\<rfloor>; r = q - of_int n in
      if r < 1 / 2 then n
      else if 1 / 2 < r then n + 1
      else if even n then n else n + 1)"

definition double :: "real \<Rightarrow> real" where
  "double x =
     (if x = 0 then 0
      else let ulp = pow2 (exponent \<bar>x\<bar> - 52)
           in sgn x * (ulp * of_int (round_half_even (\<bar>x\<bar> / ulp))))"

subsection \<open>Matching the lines\<close>

text \<open>
  The inner loop of lines 103 to 107: the score of one candidate offset. The value
  \<open>word_similarity\<close> returns is a Python float, the double of its quotient, and
  \<open>score += ...\<close> is a double addition.
\<close>

fun line_score :: "token list \<Rightarrow> nat \<Rightarrow> (nat \<times> string) list \<Rightarrow> real \<Rightarrow> py_error + real" where
  "line_score wtl start_idx [] score = Inr score"
| "line_score wtl start_idx ((i, lyric_word) # rest) score =
     (if start_idx + i < length wtl then
        (case py_index wtl (start_idx + i) of
           Inl e \<Rightarrow> Inl e
         | Inr tok \<Rightarrow>
             (case word_similarity lyric_word (tok_word tok) of
                Inl e \<Rightarrow> Inl e
              | Inr s \<Rightarrow> line_score wtl start_idx rest (double (score + double s))))
      else line_score wtl start_idx rest score)"

text \<open>
  The loop of lines 98 to 111 over the candidate offsets, with its \<open>break\<close>; the pair
  is \<open>(best_score, best_start_idx)\<close>. The scores it compares are the doubles
  \<open>line_score\<close> returns, and the initial best score is 0.
\<close>

fun search :: "token list \<Rightarrow> string list \<Rightarrow> nat list \<Rightarrow> real \<times> nat \<Rightarrow> py_error + real \<times> nat" where
  "search wtl lyric_words [] best = Inr best"
| "search wtl lyric_words (start_idx # rest) (best_score, best_start_idx) =
     (if start_idx + length lyric_words > length wtl then Inr (best_score, best_start_idx)
      else
        (case line_score wtl start_idx (enumerate 0 lyric_words) 0 of
           Inl e \<Rightarrow> Inl e
         | Inr score \<Rightarrow>
             if score > best_score
             then search wtl lyric_words rest (score, start_idx)
             else search wtl lyric_words rest (best_score, best_start_idx)))"

text \<open>
  The fallback of lines 122 to 128, used when the timeline has run out. Both of its
  tests have the form \<^verbatim>\<open>results and results[-1][k] is not None\<close>: the last result is
  read only when there is one. \<open>last_field k results\<close> is the value the test looks at,
  \<open>None\<close> when the test fails.
\<close>

definition last_field :: "(result \<Rightarrow> real option) \<Rightarrow> result list \<Rightarrow> py_error + real option" where
  "last_field k results =
     (if results = [] then Inr None
      else case py_last results of Inl e \<Rightarrow> Inl e | Inr prev \<Rightarrow> Inr (k prev))"

definition gap_fill :: "result list \<Rightarrow> string \<Rightarrow> py_error + result" where
  "gap_fill results l =
     (case last_field res_end results of
        Inl e \<Rightarrow> Inl e
      | Inr (Some last_end) \<Rightarrow>
          Inr \<lparr>res_line = l, res_start = Some last_end, res_end = Some (last_end + 2)\<rparr>
      | Inr None \<Rightarrow>
          (case last_field res_start results of
             Inl e \<Rightarrow> Inl e
           | Inr st \<Rightarrow>
               let last_time = (case st of Some t \<Rightarrow> t | None \<Rightarrow> 0)
               in Inr \<lparr>res_line = l, res_start = Some last_time,
                        res_end = Some (last_time + 2)\<rparr>))"

text \<open>
  The body of the loop over the lyric lines (lines 83 to 128), on the state
  \<open>(current_pos, results)\<close>. The stored \<open>line\<close> is \<open>l\<close>, the stripped line.
\<close>

definition align_line :: "token list \<Rightarrow> nat \<times> result list \<Rightarrow> string \<Rightarrow> py_error + nat \<times> result list" where
  "align_line wtl st line =
     (let current_pos = fst st; results = snd st; l = py_strip line in
      if l = [] then
        Inr (current_pos, results @ [\<lparr>res_line = [], res_start = None, res_end = None\<rparr>])
      else
        let lyric_words = py_split (normalize_text l) in
        if lyric_words = [] then
          Inr (current_pos, results @ [\<lparr>res_line = l, res_start = None, res_end = None\<rparr>])
        else
          (case search wtl lyric_words [current_pos..<min (current_pos + 50) (length wtl)]
                  (0, current_pos) of
             Inl e \<Rightarrow> Inl e
           | Inr (best_score, best_start_idx) \<Rightarrow>
               if best_start_idx < length wtl then
                 (case py_index wtl best_start_idx of
                    Inl e \<Rightarrow> Inl e
                  | Inr first_tok \<Rightarrow>
                      let end_idx = min (best_start_idx + length lyric_words - 1) (length wtl - 1) in
                      (case py_index wtl end_idx of
                         Inl e \<Rightarrow> Inl e
                       | Inr last_tok \<Rightarrow>
                           Inr (end_idx + 1,
                                results @ [\<lparr>res_line = l,
                                            res_start = Some (tok_start first_tok),
                                            res_end = Some (tok_end last_tok)\<rparr>])))
               else
                 (case gap_fill results l of
                    Inl e \<Rightarrow> Inl e
                  | Inr r \<Rightarrow> Inr (current_pos, results @ [r]))))"

text \<open>The loop over the lyric lines (line 82), and \<open>fallback_align\<close> itself.\<close>

fun align_lines :: "token list \<Rightarrow> nat \<times> result list \<Rightarrow> string list \<Rightarrow> py_error + result list" where
  "align_lines wtl st [] = Inr (snd st)"
| "align_lines wtl st (line # rest) =
     (case align_line wtl st line of
        Inl e \<Rightarrow> Inl e
      | Inr st' \<Rightarrow> align_lines wtl st' rest)"

definition fallback_align :: "segment list \<Rightarrow> string list \<Rightarrow> py_error + result list" where
  "fallback_align transcript_segments lyrics_lines =
     (case build_timeline transcript_segments [] of
        Inl e \<Rightarrow> Inl e
      | Inr words_timeline \<Rightarrow>
          if words_timeline = [] then
            Inr (map (\<lambda>l. \<lparr>res_line = l, res_start = None, res_end = None\<rparr>) lyrics_lines)
          else
            (case find_anchor words_timeline lyrics_lines of
               Inl e \<Rightarrow> Inl e
             | Inr best_start_pos \<Rightarrow> align_lines words_timeline (best_start_pos, []) lyrics_lines))"

section \<open>Definitions used to state the properties\<close>

text \<open>The Jaccard similarity of the case-folded character sets of two words.\<close>

definition jaccard :: "string \<Rightarrow> string \<Rightarrow> real" where
  "jaccard a b = real (card (set (py_lower a) \<inter> set (py_lower b)))
                / real (card (set (py_lower a) \<union> set (py_lower b)))"

text \<open>The value \<open>word_similarity\<close> returns (it never raises, see \<open>word_similarity_returns\<close>).\<close>

definition sim_val :: "string \<Rightarrow> string \<Rightarrow> real" where
  "sim_val a b = projr (word_similarity a b)"

text \<open>The tokens a segment contributes, and the timeline of a segment list.\<close>

definition seg_toks :: "segment \<Rightarrow> token list" where
  "seg_toks seg = projr (seg_tokens seg)"

definition timeline :: "segment list \<Rightarrow> token list" where
  "timeline segs = projr (build_timeline segs [])"

text \<open>
  A loop that keeps the best score seen so far and where it was seen, replacing both only
  on a strictly greater score. Both search loops of \<open>fallback_align\<close> have this shape.
\<close>

fun scan_best :: "(nat \<Rightarrow> 'a::linorder) \<Rightarrow> nat list \<Rightarrow> 'a \<times> nat \<Rightarrow> 'a \<times> nat" where
  "scan_best f [] best = best"
| "scan_best f (x # xs) (bs, bi) =
     (if f x > bs then scan_best f xs (f x, x) else scan_best f xs (bs, bi))"

text \<open>
  The line matcher in the words of the specification: the candidate offsets of a line of
  words \<open>ws\<close> at pointer \<open>p\<close>, and the score of a candidate, the sum over the words of
  the line of their similarity with the timeline word they face. The sum is the
  program's: a sum of doubles, taken in the order of the words.
\<close>

definition lm_candidates :: "token list \<Rightarrow> string list \<Rightarrow> nat \<Rightarrow> nat set" where
  "lm_candidates wtl ws p =
     {j. p \<le> j \<and> j < min (p + 50) (length wtl) \<and> j + length ws \<le> length wtl}"

definition lm_score :: "token list \<Rightarrow> string list \<Rightarrow> nat \<Rightarrow> real" where
  "lm_score wtl ws j =
     foldl (\<lambda>total (i, w). double (total + double (sim_val w (tok_word (wtl ! (j + i))))))
       0 (enumerate 0 ws)"

text \<open>The normalized words of a lyric line, as the loop body computes them.\<close>

definition line_words :: "string \<Rightarrow> string list" where
  "line_words line = py_split (normalize_text (py_strip line))"

text \<open>The offset the search of \<open>align_line\<close> chooses for a line, at pointer \<open>p\<close>.\<close>

definition chosen_offset :: "token list \<Rightarrow> nat \<Rightarrow> string \<Rightarrow> nat" where
  "chosen_offset wtl p line =
     snd (projr (search wtl (line_words line) [p..<min (p + 50) (length wtl)] (0, p)))"

text \<open>
  The states \<open>(current_pos, results)\<close> of the loop over the lyric lines: the state before
  each line, and the final state.
\<close>

fun align_states :: "token list \<Rightarrow> nat \<times> result list \<Rightarrow> string list \<Rightarrow> (nat \<times> result list) list" where
  "align_states wtl st [] = [st]"
| "align_states wtl st (line # rest) =
     st # (case align_line wtl st line of
             Inl e \<Rightarrow> []
           | Inr st' \<Rightarrow> align_states wtl st' rest)"

text \<open>
  The anchor locator: the score of a candidate index \<open>i\<close> for a list \<open>R\<close> of reference
  words, the number of words of \<open>R\<close> that occur in the string joining up to 15 timeline
  words from \<open>i\<close> on.
\<close>

definition anchor_score :: "token list \<Rightarrow> string list \<Rightarrow> nat \<Rightarrow> nat" where
  "anchor_score wtl R i =
     length (filter (\<lambda>w. is_substr w (join_sp (map tok_word (take 15 (drop i wtl))))) R)"

text \<open>The reference words the code uses: those of the non-blank lines among the first three
  lyric lines.\<close>

definition ref_words :: "string list \<Rightarrow> string list" where
  "ref_words lyrics_lines =
     concat (map (\<lambda>l. py_split (normalize_text l))
               (filter (\<lambda>l. py_strip l \<noteq> []) (take 3 lyrics_lines)))"

text \<open>The reference words in the words of the specification: those of the first three
  non-blank lyric lines.\<close>

definition spec_ref_words :: "string list \<Rightarrow> string list" where
  "spec_ref_words lyrics_lines =
     concat (map (\<lambda>l. py_split (normalize_text l))
               (take 3 (filter (\<lambda>l. py_strip l \<noteq> []) lyrics_lines)))"

text \<open>Result and token times are in order.\<close>

definition ordered_result :: "result \<Rightarrow> bool" where
  "ordered_result r =
     (case (res_start r, res_end r) of
        (None, None) \<Rightarrow> True
      | (Some s, Some e) \<Rightarrow> s \<le> e
      | _ \<Rightarrow> False)"

definition chronological :: "token list \<Rightarrow> bool" where
  "chronological wtl = (\<forall>j<length wtl. \<forall>i\<le>j. tok_start (wtl ! i) \<le> tok_end (wtl ! j))"

text \<open>
  The gap filler in the words of the specification: the time a synthesized result starts
  at, given the results emitted so far.
\<close>

definition gap_base :: "result list \<Rightarrow> real" where
  "gap_base results =
     (if results = [] then 0
      else case res_end (last results) of
             Some e \<Rightarrow> e
           | None \<Rightarrow> (case res_start (last results) of Some s \<Rightarrow> s | None \<Rightarrow> 0))"

text \<open>The index of the last timeline token a matched line of \<open>m\<close> words at offset \<open>j\<close> covers.\<close>

definition end_index :: "token list \<Rightarrow> nat \<Rightarrow> nat \<Rightarrow> nat" where
  "end_index wtl j m = min (j + m - 1) (length wtl - 1)"

text \<open>
  The branch a non-blank line with at least one normalized word takes in \<open>align_line\<close>:
  it is matched when the chosen offset lies within the timeline, and goes to the gap
  filler otherwise.
\<close>

definition matched_branch :: "token list \<Rightarrow> nat \<times> result list \<Rightarrow> string \<Rightarrow> bool" where
  "matched_branch wtl st line =
     (py_strip line \<noteq> [] \<and> line_words line \<noteq> []
      \<and> chosen_offset wtl (fst st) line < length wtl)"

definition gap_branch :: "token list \<Rightarrow> nat \<times> result list \<Rightarrow> string \<Rightarrow> bool" where
  "gap_branch wtl st line =
     (py_strip line \<noteq> [] \<and> line_words line \<noteq> []
      \<and> \<not> chosen_offset wtl (fst st) line < length wtl)"

section \<open>Properties\<close>

subsection \<open>Word similarity\<close>

lemma py_lower_Nil_iff [simp]: "py_lower a = [] \<longleftrightarrow> a = []"
  by (simp add: py_lower_def)

lemma set_py_lower_empty_iff [simp]: "set (py_lower a) = {} \<longleftrightarrow> a = []"
  by (simp add: py_lower_def)

lemma py_lower_Nil [simp]: "py_lower [] = []"
  by (simp add: py_lower_def)

lemma Nil_eq_py_lower [simp]: "[] = py_lower a \<longleftrightarrow> a = []"
  by (simp add: py_lower_def)

lemma card_inter_eq_union_iff:
  assumes "finite A" "finite B"
  shows "card (A \<inter> B) = card (A \<union> B) \<longleftrightarrow> A = B"
proof
  assume h: "card (A \<inter> B) = card (A \<union> B)"
  have "A \<inter> B = A \<union> B"
    by (rule card_subset_eq) (use assms h in auto)
  then show "A = B" by blast
next
  assume "A = B" then show "card (A \<inter> B) = card (A \<union> B)" by simp
qed

lemma word_similarity_nonempty:
  assumes "a \<noteq> []" "b \<noteq> []"
  shows "word_similarity a b =
           Inr (real (card (set (py_lower a) \<inter> set (py_lower b)))
                / real (card (set (py_lower a) \<union> set (py_lower b))))"
proof -
  have pos: "card (set (py_lower a) \<union> set (py_lower b)) > 0"
    using assms by (simp add: card_gt_0_iff)
  show ?thesis
  proof (cases "py_lower a = py_lower b")
    case True
    then show ?thesis using pos assms by (simp add: word_similarity_def)
  next
    case False
    then show ?thesis using pos assms
      by (simp add: word_similarity_def py_truediv_def Let_def)
  qed
qed

lemma word_similarity_both_empty: "word_similarity [] [] = Inr 1"
  by (simp add: word_similarity_def py_lower_def)

lemma word_similarity_left_empty: "b \<noteq> [] \<Longrightarrow> word_similarity [] b = Inr 0"
  by (auto simp add: word_similarity_def Let_def py_lower_def)

lemma word_similarity_right_empty: "a \<noteq> [] \<Longrightarrow> word_similarity a [] = Inr 0"
  by (auto simp add: word_similarity_def Let_def py_lower_def)

lemma jaccard_bounds: "a \<noteq> [] \<Longrightarrow> 0 \<le> jaccard a b \<and> jaccard a b \<le> 1"
proof -
  assume "a \<noteq> []"
  then have pos: "card (set (py_lower a) \<union> set (py_lower b)) > 0"
    by (simp add: card_gt_0_iff)
  have le: "card (set (py_lower a) \<inter> set (py_lower b)) \<le> card (set (py_lower a) \<union> set (py_lower b))"
    by (rule card_mono) auto
  show ?thesis using pos le by (simp add: jaccard_def)
qed

lemma jaccard_one_iff:
  "a \<noteq> [] \<Longrightarrow> jaccard a b = 1 \<longleftrightarrow> set (py_lower a) = set (py_lower b)"
proof -
  assume "a \<noteq> []"
  then have pos: "card (set (py_lower a) \<union> set (py_lower b)) > 0"
    by (simp add: card_gt_0_iff)
  then have "jaccard a b = 1 \<longleftrightarrow>
     card (set (py_lower a) \<inter> set (py_lower b)) = card (set (py_lower a) \<union> set (py_lower b))"
    using \<open>a \<noteq> []\<close> by (auto simp add: jaccard_def)
  then show ?thesis by (simp add: card_inter_eq_union_iff)
qed

lemma word_similarity_returns: "word_similarity a b = Inr (sim_val a b)"
proof (cases "a = []"; cases "b = []")
  show "a = [] \<Longrightarrow> b = [] \<Longrightarrow> ?thesis"
    by (simp add: sim_val_def word_similarity_both_empty)
  show "a = [] \<Longrightarrow> b \<noteq> [] \<Longrightarrow> ?thesis"
    by (simp add: sim_val_def word_similarity_left_empty)
  show "a \<noteq> [] \<Longrightarrow> b = [] \<Longrightarrow> ?thesis"
    by (simp add: sim_val_def word_similarity_right_empty)
  show "a \<noteq> [] \<Longrightarrow> b \<noteq> [] \<Longrightarrow> ?thesis"
    by (simp add: sim_val_def word_similarity_nonempty)
qed

lemma sim_val_bounds: "0 \<le> sim_val a b \<and> sim_val a b \<le> 1"
proof (cases "a = []"; cases "b = []")
  show "a = [] \<Longrightarrow> b = [] \<Longrightarrow> ?thesis"
    by (simp add: sim_val_def word_similarity_both_empty)
  show "a = [] \<Longrightarrow> b \<noteq> [] \<Longrightarrow> ?thesis"
    by (simp add: sim_val_def word_similarity_left_empty)
  show "a \<noteq> [] \<Longrightarrow> b = [] \<Longrightarrow> ?thesis"
    by (simp add: sim_val_def word_similarity_right_empty)
  show "a \<noteq> [] \<Longrightarrow> b \<noteq> [] \<Longrightarrow> ?thesis"
    using jaccard_bounds [of a b]
    by (simp add: sim_val_def word_similarity_nonempty jaccard_def)
qed

text \<open>
  Claim C2, as amended. For every pair of words \<open>word_similarity\<close> returns a score in
  \<open>[0, 1]\<close>. The score is 1 exactly when the lower-cased words have the same set of
  characters, in particular whenever the lower-cased words are identical (two empty words
  included). It is 0 when exactly one of the two words is empty. For two non-empty words it
  is the Jaccard similarity of the case-folded character sets. The function is symmetric,
  and \<open>word_similarity a a\<close> is 1 for every \<open>a\<close>.
\<close>

theorem word_similarity_contract:
  "\<exists>x. word_similarity a b = Inr x \<and> 0 \<le> x \<and> x \<le> 1
     \<and> (x = 1 \<longleftrightarrow> set (py_lower a) = set (py_lower b))
     \<and> (py_lower a = py_lower b \<longrightarrow> x = 1)
     \<and> ((a = []) \<noteq> (b = []) \<longrightarrow> x = 0)
     \<and> (a \<noteq> [] \<and> b \<noteq> [] \<longrightarrow> x = jaccard a b)
     \<and> word_similarity b a = Inr x
     \<and> word_similarity a a = Inr 1"
proof -
  have self: "word_similarity a a = Inr 1"
    by (simp add: word_similarity_def)
  consider (both) "a = []" "b = []" | (left) "a = []" "b \<noteq> []"
    | (right) "a \<noteq> []" "b = []" | (none) "a \<noteq> []" "b \<noteq> []"
    by blast
  then show ?thesis
  proof cases
    case both
    then show ?thesis by (simp add: word_similarity_both_empty)
  next
    case left
    then show ?thesis
      using self
      by (simp add: word_similarity_left_empty word_similarity_right_empty
            word_similarity_both_empty)
  next
    case right
    then show ?thesis
      using self
      by (simp add: word_similarity_left_empty word_similarity_right_empty
            word_similarity_both_empty)
  next
    case none
    have ab: "word_similarity a b = Inr (jaccard a b)"
      using none by (simp add: word_similarity_nonempty jaccard_def)
    have ba: "word_similarity b a = Inr (jaccard a b)"
      using none by (simp add: word_similarity_nonempty jaccard_def Int_commute Un_commute)
    have one: "jaccard a b = 1 \<longleftrightarrow> set (py_lower a) = set (py_lower b)"
      using none by (simp add: jaccard_one_iff)
    have "py_lower a = py_lower b \<longrightarrow> jaccard a b = 1"
      using one by simp
    then show ?thesis
      using ab ba one jaccard_bounds [of a b] none self by simp
  qed
qed

text \<open>The contract of C2 at concrete words: two non-empty words, one empty word, and
  two words that differ only in case.\<close>

theorem word_similarity_contract_witness:
  "word_similarity ''abc'' ''bcd'' = Inr (1 / 2) \<and> word_similarity ''bcd'' ''abc'' = Inr (1 / 2)
   \<and> word_similarity '''' ''x'' = Inr 0 \<and> word_similarity ''Ab'' ''aB'' = Inr 1"
proof -
  have j: "jaccard ''abc'' ''bcd'' = 1 / 2" by code_simp
  have l: "py_lower ''Ab'' = py_lower ''aB''" by code_simp
  show ?thesis
    using word_similarity_contract [of "''abc''" "''bcd''"]
          word_similarity_contract [of "''''" "''x''"]
          word_similarity_contract [of "''Ab''" "''aB''"] j l
    by auto
qed

text \<open>
  Claim C2 as stated fails twice: \<open>ab\<close> and \<open>ba\<close> are different words with the same
  character set, and score 1; two empty words score 1 and not 0.
\<close>

theorem word_similarity_one_counterexample:
  "word_similarity ''ab'' ''ba'' = Inr 1 \<and> py_lower ''ab'' \<noteq> py_lower ''ba''
   \<and> word_similarity '''' '''' = Inr 1"
  by code_simp

subsection \<open>The operations return\<close>

lemma py_index_in [simp]: "i < length xs \<Longrightarrow> py_index xs i = Inr (xs ! i)"
  by (simp add: py_index_def)

lemma seg_tokens_returns: "seg_tokens seg = Inr (seg_toks seg)"
  by (simp add: seg_toks_def seg_tokens_def py_truediv_def Let_def)

lemma build_timeline_returns:
  "build_timeline segs acc = Inr (acc @ concat (map seg_toks segs))"
  by (induction segs arbitrary: acc) (simp_all add: seg_tokens_returns)

lemma timeline_eq: "timeline segs = concat (map seg_toks segs)"
  by (simp add: timeline_def build_timeline_returns)

lemma window_words_returns:
  "\<forall>x\<in>set xs. s + x < length wtl \<Longrightarrow>
   window_words wtl s xs = Inr (map (\<lambda>x. tok_word (wtl ! (s + x))) xs)"
  by (induction xs) simp_all

lemma take_drop_nth_map:
  "map (\<lambda>x. wtl ! (s + x)) [0..<min k (length wtl - s)] = take k (drop s wtl)"
  by (rule nth_equalityI) auto

lemma window_words_range:
  "s < length wtl \<Longrightarrow>
   window_words wtl s [0..<min 15 (length wtl - s)] = Inr (map tok_word (take 15 (drop s wtl)))"
proof -
  assume "s < length wtl"
  have "window_words wtl s [0..<min 15 (length wtl - s)]
        = Inr (map (\<lambda>x. tok_word (wtl ! (s + x))) [0..<min 15 (length wtl - s)])"
    by (rule window_words_returns) auto
  also have "map (\<lambda>x. tok_word (wtl ! (s + x))) [0..<min 15 (length wtl - s)]
             = map tok_word (map (\<lambda>x. wtl ! (s + x)) [0..<min 15 (length wtl - s)])"
    by simp
  finally show ?thesis by (simp only: take_drop_nth_map)
qed

lemma anchor_loop_returns:
  "\<forall>x\<in>set xs. x < length wtl \<Longrightarrow>
   anchor_loop wtl ref xs best = Inr (scan_best (anchor_score wtl (py_split ref)) xs best)"
proof (induction xs arbitrary: best)
  case Nil
  then show ?case by simp
next
  case (Cons x xs)
  obtain bs bi where b: "best = (bs, bi)" by (cases best)
  from Cons.prems have x: "x < length wtl" and xs: "\<forall>y\<in>set xs. y < length wtl" by auto
  show ?case
    using Cons.IH [OF xs] x
    by (simp add: b window_words_range anchor_score_def Let_def)
qed

subsection \<open>Rounding to the nearest double\<close>

lemma bit_length_0: "bit_length 0 = 0"
  by (subst bit_length.simps) simp

lemma bit_length_1: "bit_length (Suc 0) = Suc 0"
  by (subst bit_length.simps) (simp add: bit_length_0)

lemma bit_length_bounds:
  "0 < n \<Longrightarrow> 2 ^ (bit_length n - 1) \<le> n \<and> n < 2 ^ bit_length n"
proof (induction n rule: bit_length.induct)
  case (1 n)
  show ?case
  proof (cases "n div 2 = 0")
    case True
    with "1.prems" have "n = 1" by (simp add: div_eq_0_iff) 
    then show ?thesis by (simp add: bit_length_1)
  next
    case False
    then have pos: "0 < n div 2" by simp
    from "1.IH" [OF _ pos] "1.prems"
    have ih: "2 ^ (bit_length (n div 2) - 1) \<le> n div 2" "n div 2 < 2 ^ bit_length (n div 2)"
      by simp_all
    have bl: "bit_length n = Suc (bit_length (n div 2))"
      using "1.prems" by (subst bit_length.simps) simp
    have blpos: "0 < bit_length (n div 2)"
      using pos by (subst bit_length.simps) simp
    have "2 ^ (bit_length n - 1) = 2 * 2 ^ (bit_length (n div 2) - 1)"
      using blpos bl by (cases "bit_length (n div 2)") simp_all
    also have "\<dots> \<le> 2 * (n div 2)" using ih(1) by simp
    also have "\<dots> \<le> n" by simp
    finally have lo: "2 ^ (bit_length n - 1) \<le> n" .
    have "n < 2 * (n div 2) + 2" by presburger
    also have "\<dots> \<le> 2 * 2 ^ bit_length (n div 2)" using ih(2) by simp
    finally have "n < 2 ^ bit_length n" by (simp add: bl)
    with lo show ?thesis by simp
  qed
qed

lemma real_pow2_le: "(2::nat) ^ a \<le> n \<Longrightarrow> (2::real) ^ a \<le> real n"
proof -
  assume "(2::nat) ^ a \<le> n"
  then have "real ((2::nat) ^ a) \<le> real n" by (simp only: of_nat_le_iff)
  then show ?thesis by simp
qed

lemma real_less_pow2: "n < (2::nat) ^ a \<Longrightarrow> real n + 1 \<le> (2::real) ^ a"
proof -
  assume "n < (2::nat) ^ a"
  then have "Suc n \<le> 2 ^ a" by simp
  then have "real (Suc n) \<le> real ((2::nat) ^ a)" by (simp only: of_nat_le_iff)
  then show ?thesis by simp
qed

lemma pow2_pos: "0 < pow2 k"
  by (simp add: pow2_def)

text \<open>\<open>exponent\<close> is the binary exponent of a positive number.\<close>

lemma exponent_bounds:
  assumes "0 < x"
  shows "pow2 (exponent x) \<le> x \<and> x < pow2 (exponent x + 1)"
proof (cases "1 \<le> x")
  case True
  define n where "n = nat \<lfloor>x\<rfloor>"
  have n: "0 < n" using True by (simp add: n_def)
  have nx: "real n \<le> x" "x < real n + 1" using True by (simp_all add: n_def)
  have e: "exponent x = int (bit_length n) - 1" using True by (simp add: exponent_def n_def)
  have blpos: "0 < bit_length n" using n by (subst bit_length.simps) simp
  from bit_length_bounds [OF n]
  have b: "(2::nat) ^ (bit_length n - 1) \<le> n" "n < 2 ^ bit_length n" by simp_all
  have p1: "pow2 (exponent x) = 2 ^ (bit_length n - 1)"
    using blpos by (simp add: e pow2_def nat_diff_distrib')
  have p2: "pow2 (exponent x + 1) = 2 ^ bit_length n"
    by (simp add: e pow2_def)
  have "(2::real) ^ (bit_length n - 1) \<le> real n"
    using b(1) by (rule real_pow2_le)
  moreover have "real n + 1 \<le> (2::real) ^ bit_length n"
    using b(2) by (rule real_less_pow2)
  ultimately show ?thesis using nx unfolding p1 p2 by linarith
next
  case False
  then have x1: "x < 1" by simp
  define y where "y = 1 / x"
  have y1: "1 < y" using assms x1 by (simp add: y_def)
  define n where "n = nat (\<lceil>y\<rceil> - 1)"
  have c2: "2 \<le> \<lceil>y\<rceil>" using y1 by linarith
  then have n: "0 < n" by (simp add: n_def)
  have ny: "real n < y" "y \<le> real n + 1" using c2 by (simp_all add: n_def) linarith+
  define k where "k = bit_length n"
  have kpos: "0 < k" using n unfolding k_def by (subst bit_length.simps) simp
  have e: "exponent x = - int k" using False by (simp add: exponent_def n_def y_def k_def)
  from bit_length_bounds [OF n]
  have b: "(2::nat) ^ (k - 1) \<le> n" "n < 2 ^ k" by (simp_all add: k_def)
  have lo: "(2::real) ^ (k - 1) \<le> real n"
    using b(1) by (rule real_pow2_le)
  have hi: "real n + 1 \<le> (2::real) ^ k"
    using b(2) by (rule real_less_pow2)
  have yk: "y \<le> 2 ^ k" using ny(2) hi by linarith
  have ky: "(2::real) ^ (k - 1) < y" using ny(1) lo by linarith
  have p1: "pow2 (exponent x) = 1 / 2 ^ k"
    by (simp add: e pow2_def)
  have p2: "pow2 (exponent x + 1) = 1 / 2 ^ (k - 1)"
    using kpos by (cases k) (simp_all add: e pow2_def)
  have "1 / 2 ^ k \<le> x"
    using yk assms by (simp add: y_def field_simps)
  moreover have "x < 1 / 2 ^ (k - 1)"
    using ky assms by (simp add: y_def field_simps)
  ultimately show ?thesis by (simp add: p1 p2)
qed

lemma round_half_even_near: "\<bar>of_int (round_half_even q) - q\<bar> \<le> 1 / 2"
  unfolding round_half_even_def Let_def by (auto simp: abs_if) linarith+

text \<open>\<open>double\<close> moves a number by at most half a unit in its last place.\<close>

lemma double_near:
  assumes "0 < x"
  shows "\<bar>double x - x\<bar> \<le> pow2 (exponent x - 52) / 2"
proof -
  define u where "u = pow2 (exponent x - 52)"
  have u: "0 < u" by (simp add: u_def pow2_pos)
  have d: "double x = u * of_int (round_half_even (x / u))"
    using assms by (simp add: double_def Let_def u_def)
  have "double x - x = u * (of_int (round_half_even (x / u)) - x / u)"
    using u by (simp add: d right_diff_distrib)
  then have "\<bar>double x - x\<bar> = u * \<bar>of_int (round_half_even (x / u)) - x / u\<bar>"
    using u by (simp add: abs_mult)
  also have "\<dots> \<le> u * (1 / 2)"
    using u round_half_even_near [of "x / u"] by (intro mult_left_mono) simp_all
  finally show ?thesis by (simp add: u_def)
qed

text \<open>\<open>double\<close> of a positive number is a multiple of the unit in its last place.\<close>

lemma double_grid:
  "0 < x \<Longrightarrow> \<exists>m. double x = pow2 (exponent x - 52) * of_int m"
  by (auto simp: double_def Let_def)

text \<open>The doubles of one, two and three fifths, and the two sums that tie as reals.\<close>

lemma double_fifths:
  "double (1 / 5) = 3602879701896397 / 18014398509481984
   \<and> double (2 / 5) = 3602879701896397 / 9007199254740992
   \<and> double (3 / 5) = 5404319552844595 / 9007199254740992
   \<and> double (double (1 / 5) + double (2 / 5)) = 1351079888211149 / 2251799813685248
   \<and> double (0 + double (3 / 5)) < double (double (1 / 5) + double (2 / 5))"
  by code_simp

subsection \<open>The search loops\<close>

lemma scan_best_spec:
  assumes "sorted_wrt (<) xs"
  shows "(if \<forall>x\<in>set xs. f x \<le> bs then scan_best f xs (bs, bi) = (bs, bi)
          else (\<exists>j\<in>set xs. scan_best f xs (bs, bi) = (f j, j) \<and> bs < f j
                  \<and> (\<forall>x\<in>set xs. f x \<le> f j) \<and> (\<forall>x\<in>set xs. x < j \<longrightarrow> f x < f j)))"
  using assms
proof (induction xs arbitrary: bs bi)
  case Nil
  then show ?case by simp
next
  case (Cons x xs)
  from Cons.prems have srt: "sorted_wrt (<) xs" and lt: "\<forall>y\<in>set xs. x < y" by auto
  show ?case
  proof (cases "f x > bs")
    case True
    note IH = Cons.IH [OF srt, of "f x" x]
    show ?thesis
    proof (cases "\<forall>y\<in>set xs. f y \<le> f x")
      case all: True
      with IH have "scan_best f xs (f x, x) = (f x, x)" by simp
      with True all lt show ?thesis by (auto intro!: bexI [of _ x])
    next
      case ex: False
      with IH obtain j where j: "j \<in> set xs" "scan_best f xs (f x, x) = (f j, j)" "f x < f j"
        "\<forall>y\<in>set xs. f y \<le> f j" "\<forall>y\<in>set xs. y < j \<longrightarrow> f y < f j"
        by auto
      have "\<not> (\<forall>y\<in>set (x # xs). f y \<le> bs)" using True by auto
      moreover have "scan_best f (x # xs) (bs, bi) = (f j, j)" using True j by simp
      moreover have "bs < f j" using True j by simp
      moreover have "\<forall>y\<in>set (x # xs). f y \<le> f j" using j by auto
      moreover have "\<forall>y\<in>set (x # xs). y < j \<longrightarrow> f y < f j" using j by auto
      ultimately show ?thesis using j(1) by (auto intro!: bexI [of _ j])
    qed
  next
    case False
    note IH = Cons.IH [OF srt, of bs bi]
    show ?thesis
    proof (cases "\<forall>y\<in>set xs. f y \<le> bs")
      case all: True
      with IH False show ?thesis by auto
    next
      case ex: False
      with IH obtain j where j: "j \<in> set xs" "scan_best f xs (bs, bi) = (f j, j)" "bs < f j"
        "\<forall>y\<in>set xs. f y \<le> f j" "\<forall>y\<in>set xs. y < j \<longrightarrow> f y < f j"
        by auto
      have "\<not> (\<forall>y\<in>set (x # xs). f y \<le> bs)" using ex by auto
      moreover have "scan_best f (x # xs) (bs, bi) = (f j, j)" using False j by simp
      moreover have "\<forall>y\<in>set (x # xs). f y \<le> f j" using j False by auto
      moreover have "\<forall>y\<in>set (x # xs). y < j \<longrightarrow> f y < f j" using j False by auto
      ultimately show ?thesis using j(1,3) by (auto intro!: bexI [of _ j])
    qed
  qed
qed

lemma scan_best_none:
  "sorted_wrt (<) xs \<Longrightarrow> \<forall>x\<in>set xs. f x \<le> bs \<Longrightarrow> scan_best f xs (bs, bi) = (bs, bi)"
  using scan_best_spec [of xs f bs bi] by (simp only: if_True)

lemma scan_best_some:
  "sorted_wrt (<) xs \<Longrightarrow> \<not> (\<forall>x\<in>set xs. f x \<le> bs) \<Longrightarrow>
   \<exists>j\<in>set xs. scan_best f xs (bs, bi) = (f j, j) \<and> bs < f j
       \<and> (\<forall>x\<in>set xs. f x \<le> f j) \<and> (\<forall>x\<in>set xs. x < j \<longrightarrow> f x < f j)"
  using scan_best_spec [of xs f bs bi] by (simp only: if_False)

lemma round_half_even_nonneg: "0 \<le> q \<Longrightarrow> 0 \<le> round_half_even q"
  by (simp add: round_half_even_def Let_def)

lemma double_nonneg: "0 \<le> x \<Longrightarrow> 0 \<le> double x"
proof (cases "x = 0")
  case True
  then show ?thesis by (simp add: double_def)
next
  case False
  assume "0 \<le> x"
  with False have x: "0 < x" by simp
  have "0 \<le> x / pow2 (exponent x - 52)"
    using x pow2_pos [of "exponent x - 52"] by simp
  then have "0 \<le> round_half_even (x / pow2 (exponent x - 52))"
    by (rule round_half_even_nonneg)
  then have "0 \<le> pow2 (exponent x - 52) * of_int (round_half_even (x / pow2 (exponent x - 52)))"
    using pow2_pos [of "exponent x - 52"] by simp
  then show ?thesis using x by (simp add: double_def Let_def)
qed

lemma line_score_returns:
  "line_score wtl j (enumerate k ws) acc =
     Inr (foldl (\<lambda>total (i, w). if j + i < length wtl
                   then double (total + double (sim_val w (tok_word (wtl ! (j + i)))))
                   else total)
            acc (enumerate k ws))"
  by (induction ws arbitrary: k acc) (simp_all add: word_similarity_returns)

lemma line_score_fits:
  assumes "j + length ws \<le> length wtl"
  shows "line_score wtl j (enumerate 0 ws) 0 = Inr (lm_score wtl ws j)"
proof -
  have "foldl (\<lambda>total (i, w). if j + i < length wtl
                   then double (total + double (sim_val w (tok_word (wtl ! (j + i)))))
                   else total)
            0 (enumerate 0 ws)
        = lm_score wtl ws j"
    unfolding lm_score_def
  proof (rule foldl_cong [OF refl refl])
    fix total x
    assume mem: "x \<in> set (enumerate 0 ws)"
    obtain i w where x: "x = (i, w)" by (cases x)
    have "i < length ws" using mem by (simp add: x in_set_enumerate_eq)
    then have "j + fst x < length wtl" using assms by (simp add: x)
    then show "(case x of (i, w) \<Rightarrow> if j + i < length wtl
                   then double (total + double (sim_val w (tok_word (wtl ! (j + i)))))
                   else total)
          = (case x of (i, w) \<Rightarrow> double (total + double (sim_val w (tok_word (wtl ! (j + i))))))"
      by (simp add: x)
  qed
  then show ?thesis by (simp only: line_score_returns)
qed

lemma double_sum_nonneg:
  "0 \<le> acc \<Longrightarrow>
   0 \<le> foldl (\<lambda>total (i, w). double (total + double (sim_val w (tok_word (wtl ! (j + i))))))
         acc xs"
proof (induction xs arbitrary: acc)
  case Nil
  then show ?case by simp
next
  case (Cons x xs)
  obtain i w where x: "x = (i, w)" by (cases x)
  have "0 \<le> double (sim_val w (tok_word (wtl ! (j + i))))"
    by (intro double_nonneg) (simp add: sim_val_bounds)
  then have "0 \<le> double (acc + double (sim_val w (tok_word (wtl ! (j + i)))))"
    using Cons.prems by (intro double_nonneg) simp
  then show ?case using Cons.IH by (simp add: x)
qed

lemma search_returns:
  "search wtl ws [a..<b] best =
     Inr (scan_best (lm_score wtl ws) [a..<min b (Suc (length wtl) - length ws)] best)"
proof (induction "b - a" arbitrary: a best)
  case 0
  then show ?case by simp
next
  case (Suc d)
  then have ab: "a < b" and d: "d = b - Suc a" by auto
  obtain bs bi where best: "best = (bs, bi)" by (cases best)
  have up: "[a..<b] = a # [Suc a..<b]" using ab by (simp add: upt_conv_Cons)
  show ?case
  proof (cases "a + length ws > length wtl")
    case True
    then have "[a..<min b (Suc (length wtl) - length ws)] = []" by simp
    with True show ?thesis by (simp add: up best)
  next
    case False
    then have fits: "a + length ws \<le> length wtl" by simp
    then have "a < min b (Suc (length wtl) - length ws)" using ab by simp
    then have up2: "[a..<min b (Suc (length wtl) - length ws)]
                    = a # [Suc a..<min b (Suc (length wtl) - length ws)]"
      by (simp add: upt_conv_Cons)
    show ?thesis
      using fits Suc.hyps(1) [OF d]
      by (simp add: up up2 best line_score_fits del: upt_Suc)
  qed
qed

lemma lm_score_nonneg: "0 \<le> lm_score wtl ws j"
  unfolding lm_score_def by (rule double_sum_nonneg) simp

lemma lm_candidates_range:
  "set [p..<min (min (p + 50) (length wtl)) (Suc (length wtl) - length ws)] = lm_candidates wtl ws p"
  by (auto simp: lm_candidates_def)

subsection \<open>One step of the line matcher\<close>

lemma search_pointer:
  "search wtl ws [p..<min (p + 50) (length wtl)] (0, p) =
     Inr (scan_best (lm_score wtl ws)
            [p..<min (min (p + 50) (length wtl)) (Suc (length wtl) - length ws)] (0, p))"
  by (rule search_returns)

lemma lm_candidates_least:
  assumes "j \<in> lm_candidates wtl ws p"
  shows "p \<in> lm_candidates wtl ws p"
  using assms by (auto simp: lm_candidates_def)

lemma scan_pointer_spec:
  fixes wtl ws p
  defines "C \<equiv> lm_candidates wtl ws p"
  defines "r \<equiv> scan_best (lm_score wtl ws)
            [p..<min (min (p + 50) (length wtl)) (Suc (length wtl) - length ws)] (0, p)"
  shows "(C = {} \<longrightarrow> r = (0, p)) \<and>
         (C \<noteq> {} \<longrightarrow> snd r \<in> C \<and> fst r = lm_score wtl ws (snd r)
            \<and> (\<forall>x\<in>C. lm_score wtl ws x \<le> lm_score wtl ws (snd r))
            \<and> (\<forall>x\<in>C. x < snd r \<longrightarrow> lm_score wtl ws x < lm_score wtl ws (snd r)))"
proof -
  let ?xs = "[p..<min (min (p + 50) (length wtl)) (Suc (length wtl) - length ws)]"
  let ?f = "lm_score wtl ws"
  have set: "set ?xs = C" unfolding C_def by (rule lm_candidates_range)
  have srt: "sorted_wrt (<) ?xs" by simp
  show ?thesis
  proof (cases "\<forall>x\<in>set ?xs. ?f x \<le> 0")
    case True
    then have r: "r = (0, p)" unfolding r_def by (rule scan_best_none [OF srt])
    have zero: "\<forall>x\<in>C. ?f x = 0"
      using True lm_score_nonneg [of wtl ws] unfolding set by (auto intro: antisym)
    have "C \<noteq> {} \<longrightarrow> p \<in> C"
      unfolding C_def using lm_candidates_least by blast
    moreover have "\<forall>x\<in>C. p \<le> x" unfolding C_def lm_candidates_def by simp
    ultimately show ?thesis using r zero by fastforce
  next
    case False
    from scan_best_some [OF srt False, of p]
    obtain j where j: "j \<in> C" "r = (?f j, j)" "\<forall>x\<in>C. ?f x \<le> ?f j"
      "\<forall>x\<in>C. x < j \<longrightarrow> ?f x < ?f j"
      unfolding set r_def by blast
    then show ?thesis by auto
  qed
qed

lemma chosen_offset_eq:
  "chosen_offset wtl p line =
     snd (scan_best (lm_score wtl (line_words line))
            [p..<min (min (p + 50) (length wtl)) (Suc (length wtl) - length (line_words line))] (0, p))"
  by (simp add: chosen_offset_def search_pointer)

lemma search_chosen:
  "\<exists>bs. search wtl (line_words line) [p..<min (p + 50) (length wtl)] (0, p)
         = Inr (bs, chosen_offset wtl p line)"
  by (simp add: chosen_offset_eq search_pointer) (metis prod.collapse)

lemma chosen_offset_cases:
  "(lm_candidates wtl (line_words line) p = {} \<and> chosen_offset wtl p line = p) \<or>
   chosen_offset wtl p line \<in> lm_candidates wtl (line_words line) p"
  using scan_pointer_spec [of wtl "line_words line" p]
  by (cases "lm_candidates wtl (line_words line) p = {}") (simp_all add: chosen_offset_eq)

lemma chosen_offset_ge: "p \<le> chosen_offset wtl p line"
  using chosen_offset_cases [of wtl line p] by (auto simp: lm_candidates_def)

lemma chosen_offset_lt: "p < length wtl \<Longrightarrow> chosen_offset wtl p line < length wtl"
  using chosen_offset_cases [of wtl line p] by (auto simp: lm_candidates_def)

lemma chosen_offset_exhausted: "length wtl \<le> p \<Longrightarrow> chosen_offset wtl p line = p"
  using chosen_offset_cases [of wtl line p] by (auto simp: lm_candidates_def)

lemma gap_fill_returns:
  "gap_fill results l =
     Inr \<lparr>res_line = l, res_start = Some (gap_base results), res_end = Some (gap_base results + 2)\<rparr>"
  by (simp add: gap_fill_def last_field_def gap_base_def py_last_def split: option.splits)

lemma align_line_blank:
  "py_strip line = [] \<Longrightarrow>
   align_line wtl (p, rs) line = Inr (p, rs @ [\<lparr>res_line = [], res_start = None, res_end = None\<rparr>])"
  by (simp add: align_line_def)

lemma align_line_no_words:
  "py_strip line \<noteq> [] \<Longrightarrow> line_words line = [] \<Longrightarrow>
   align_line wtl (p, rs) line
     = Inr (p, rs @ [\<lparr>res_line = py_strip line, res_start = None, res_end = None\<rparr>])"
  by (simp add: align_line_def line_words_def)

lemma align_line_matched:
  assumes "py_strip line \<noteq> []" "line_words line \<noteq> []" "p < length wtl"
  shows "align_line wtl (p, rs) line
     = Inr (end_index wtl (chosen_offset wtl p line) (length (line_words line)) + 1,
            rs @ [\<lparr>res_line = py_strip line,
                   res_start = Some (tok_start (wtl ! chosen_offset wtl p line)),
                   res_end = Some (tok_end (wtl ! end_index wtl (chosen_offset wtl p line)
                                                     (length (line_words line))))\<rparr>])"
proof -
  obtain bs where s: "search wtl (line_words line) [p..<min (p + 50) (length wtl)] (0, p)
         = Inr (bs, chosen_offset wtl p line)"
    using search_chosen by blast
  have lt: "chosen_offset wtl p line < length wtl"
    using assms(3) by (rule chosen_offset_lt)
  have e: "end_index wtl (chosen_offset wtl p line) (length (line_words line)) < length wtl"
    using assms(3) by (simp add: end_index_def)
  show ?thesis
    using assms(1,2) s lt e
    by (simp add: align_line_def line_words_def [symmetric] Let_def end_index_def)
qed

lemma align_line_exhausted:
  assumes "py_strip line \<noteq> []" "line_words line \<noteq> []" "length wtl \<le> p"
  shows "align_line wtl (p, rs) line
     = Inr (p, rs @ [\<lparr>res_line = py_strip line, res_start = Some (gap_base rs),
                       res_end = Some (gap_base rs + 2)\<rparr>])"
proof -
  obtain bs where s: "search wtl (line_words line) [p..<min (p + 50) (length wtl)] (0, p)
         = Inr (bs, chosen_offset wtl p line)"
    using search_chosen by blast
  have c: "chosen_offset wtl p line = p"
    using assms(3) by (rule chosen_offset_exhausted)
  show ?thesis
    using assms s c
    by (simp add: align_line_def line_words_def [symmetric] Let_def gap_fill_returns)
qed

subsection \<open>The loop over the lyric lines\<close>

lemma end_index_bounds:
  "j < length wtl \<Longrightarrow> 0 < m \<Longrightarrow> j \<le> end_index wtl j m \<and> end_index wtl j m < length wtl"
  by (auto simp: end_index_def)

text \<open>One step of the loop, whatever the branch.\<close>

lemma align_line_step:
  "\<exists>p' r. align_line wtl (p, rs) line = Inr (p', rs @ [r]) \<and> p \<le> p'
     \<and> res_line r = py_strip line \<and> (res_start r = None \<longleftrightarrow> res_end r = None)
     \<and> (length wtl \<le> p \<longrightarrow> p' = p) \<and> (p < length wtl \<longrightarrow> p' \<le> length wtl)"
proof -
  consider (blank) "py_strip line = []"
    | (nowords) "py_strip line \<noteq> []" "line_words line = []"
    | (matched) "py_strip line \<noteq> []" "line_words line \<noteq> []" "p < length wtl"
    | (exhausted) "py_strip line \<noteq> []" "line_words line \<noteq> []" "length wtl \<le> p"
    by fastforce
  then show ?thesis
  proof cases
    case blank
    then show ?thesis by (simp add: align_line_blank)
  next
    case nowords
    then show ?thesis by (simp add: align_line_no_words)
  next
    case matched
    have "p \<le> chosen_offset wtl p line" by (rule chosen_offset_ge)
    moreover have "chosen_offset wtl p line \<le> end_index wtl (chosen_offset wtl p line) (length (line_words line))
        \<and> end_index wtl (chosen_offset wtl p line) (length (line_words line)) < length wtl"
      using matched by (intro end_index_bounds chosen_offset_lt) simp_all
    ultimately show ?thesis
      using matched by (simp add: align_line_matched)
  next
    case exhausted
    then show ?thesis by (simp add: align_line_exhausted)
  qed
qed

lemma align_line_step_state:
  "\<exists>p' r. align_line wtl st line = Inr (p', snd st @ [r]) \<and> fst st \<le> p'
     \<and> res_line r = py_strip line \<and> (res_start r = None \<longleftrightarrow> res_end r = None)
     \<and> (length wtl \<le> fst st \<longrightarrow> p' = fst st) \<and> (fst st < length wtl \<longrightarrow> p' \<le> length wtl)"
  using align_line_step [of wtl "fst st" "snd st" line] by simp

lemma align_line_total: "\<exists>st'. align_line wtl st line = Inr st'"
  using align_line_step_state [of wtl st line] by auto

lemma align_lines_lines:
  "\<exists>new. align_lines wtl (p, rs) lines = Inr (rs @ new)
      \<and> map res_line new = map py_strip lines
      \<and> (\<forall>r\<in>set new. res_start r = None \<longleftrightarrow> res_end r = None)"
proof (induction lines arbitrary: p rs)
  case Nil
  then show ?case by simp
next
  case (Cons line lines)
  obtain p' r where st: "align_line wtl (p, rs) line = Inr (p', rs @ [r])"
    "res_line r = py_strip line" "res_start r = None \<longleftrightarrow> res_end r = None"
    using align_line_step [of wtl p rs line] by auto
  obtain new where new: "align_lines wtl (p', rs @ [r]) lines = Inr ((rs @ [r]) @ new)"
    "map res_line new = map py_strip lines" "\<forall>r\<in>set new. res_start r = None \<longleftrightarrow> res_end r = None"
    using Cons.IH [of p' "rs @ [r]"] by blast
  show ?case
    using st new by (intro exI [of _ "r # new"]) simp
qed

lemma align_states_length: "length (align_states wtl st lines) = Suc (length lines)"
proof (induction lines arbitrary: st)
  case Nil
  then show ?case by simp
next
  case (Cons line lines)
  obtain st' where "align_line wtl st line = Inr st'" using align_line_total by blast
  then show ?case using Cons.IH [of st'] by simp
qed

lemma align_states_0: "align_states wtl st lines ! 0 = st"
  by (cases lines) simp_all

lemma align_states_step:
  "i < length lines \<Longrightarrow>
   align_line wtl (align_states wtl st lines ! i) (lines ! i)
     = Inr (align_states wtl st lines ! Suc i)"
proof (induction lines arbitrary: st i)
  case Nil
  then show ?case by simp
next
  case (Cons line lines)
  obtain st' where st': "align_line wtl st line = Inr st'" using align_line_total by blast
  show ?case
  proof (cases i)
    case 0
    then show ?thesis using st' by (simp add: align_states_0)
  next
    case (Suc k)
    then have "k < length lines" using Cons.prems by simp
    from Cons.IH [OF this, of st'] show ?thesis using st' Suc by simp
  qed
qed

lemma align_states_final:
  "align_lines wtl st lines = Inr (snd (align_states wtl st lines ! length lines))"
proof (induction lines arbitrary: st)
  case Nil
  then show ?case by simp
next
  case (Cons line lines)
  obtain st' where st': "align_line wtl st line = Inr st'" using align_line_total by blast
  then show ?case using Cons.IH [of st'] by simp
qed

text \<open>An invariant of the loop carries over to every state.\<close>

lemma align_states_invariant:
  assumes init: "I st"
    and step: "\<And>s line s'. I s \<Longrightarrow> align_line wtl s line = Inr s' \<Longrightarrow> I s'"
    and i: "i \<le> length lines"
  shows "I (align_states wtl st lines ! i)"
  using i
proof (induction i)
  case 0
  then show ?case using init by (simp add: align_states_0)
next
  case (Suc i)
  then have "i < length lines" by simp
  from align_states_step [OF this, of wtl st] Suc show ?case
    using step by auto
qed

lemma align_states_results:
  "i \<le> length lines \<Longrightarrow>
   \<exists>new. snd (align_states wtl st lines ! i) = snd st @ new \<and> length new = i"
proof (induction i)
  case 0
  then show ?case by (simp add: align_states_0)
next
  case (Suc i)
  then have i: "i < length lines" by simp
  obtain new where new: "snd (align_states wtl st lines ! i) = snd st @ new" "length new = i"
    using Suc by auto
  obtain p' r where "align_line wtl (align_states wtl st lines ! i) (lines ! i)
      = Inr (p', snd (align_states wtl st lines ! i) @ [r])"
    using align_line_step_state by blast
  with align_states_step [OF i, of wtl st]
  have "align_states wtl st lines ! Suc i = (p', snd (align_states wtl st lines ! i) @ [r])"
    by simp
  then have "snd (align_states wtl st lines ! Suc i) = snd st @ (new @ [r])"
    using new by simp
  then show ?case using new by (intro exI [of _ "new @ [r]"]) simp
qed

lemma align_states_pointer_mono:
  "i \<le> j \<Longrightarrow> j \<le> length lines \<Longrightarrow>
   fst (align_states wtl st lines ! i) \<le> fst (align_states wtl st lines ! j)"
proof (induction j)
  case 0
  then show ?case by simp
next
  case (Suc j)
  show ?case
  proof (cases "i = Suc j")
    case True
    then show ?thesis by simp
  next
    case False
    then have ij: "i \<le> j" and j: "j < length lines" using Suc.prems by auto
    obtain p' r where "align_line wtl (align_states wtl st lines ! j) (lines ! j)
        = Inr (p', snd (align_states wtl st lines ! j) @ [r])"
      "fst (align_states wtl st lines ! j) \<le> p'"
      using align_line_step_state by blast
    with align_states_step [OF j, of wtl st]
    have "align_states wtl st lines ! Suc j = (p', snd (align_states wtl st lines ! j) @ [r])"
      and "fst (align_states wtl st lines ! j) \<le> p'"
      by simp_all
    then have "fst (align_states wtl st lines ! j) \<le> fst (align_states wtl st lines ! Suc j)"
      by simp
    with Suc.IH [OF ij] j show ?thesis by simp
  qed
qed

subsection \<open>The anchor and the two paths of fallback\_align\<close>

lemma is_space_blank [simp]: "is_space CHR '' ''"
  by (simp add: is_space_def)

lemma py_split_Nil [simp]: "py_split [] = []"
  by (simp add: py_split.simps)

lemma takeWhile_append_stop: "\<not> P z \<Longrightarrow> takeWhile P (xs @ z # ys) = takeWhile P xs"
  by (induction xs) simp_all

lemma dropWhile_append_stop:
  "\<not> P z \<Longrightarrow> dropWhile P (xs @ z # ys) = dropWhile P xs @ z # ys"
  by (induction xs) simp_all

lemma py_split_append_space:
  "is_space sp \<Longrightarrow> py_split (x @ sp # y) = py_split x @ py_split y"
proof (induction x rule: py_split.induct)
  case (1 s)
  show ?case
  proof (cases "dropWhile is_space s")
    case Nil
    then have all: "\<forall>c\<in>set s. is_space c"
      by (metis dropWhile_eq_Nil_conv)
    then have "dropWhile is_space (s @ sp # y) = dropWhile is_space y"
      using "1.prems" by (simp add: dropWhile_append)
    then have "py_split (s @ sp # y) = py_split y"
      by (subst py_split.simps, subst (2) py_split.simps) simp
    moreover have "py_split s = []" by (subst py_split.simps) (simp only: Nil list.case)
    ultimately show ?thesis by simp
  next
    case (Cons c cs)
    let ?P = "\<lambda>x. \<not> is_space x"
    have ex: "\<exists>z\<in>set s. \<not> is_space z"
      using Cons by (metis dropWhile_eq_Nil_conv list.distinct(1))
    have d: "dropWhile is_space (s @ sp # y) = (c # cs) @ sp # y"
      using ex Cons by (auto simp add: dropWhile_append)
    have t: "takeWhile ?P ((c # cs) @ sp # y) = takeWhile ?P (c # cs)"
      by (rule takeWhile_append_stop) (use "1.prems" in simp)
    have dd: "dropWhile ?P ((c # cs) @ sp # y) = dropWhile ?P (c # cs) @ sp # y"
      by (rule dropWhile_append_stop) (use "1.prems" in simp)
    have "py_split (s @ sp # y)
          = takeWhile ?P (c # cs) # py_split (dropWhile ?P (c # cs) @ sp # y)"
      by (subst py_split.simps) (simp only: d t [symmetric] dd [symmetric], simp)
    also have "\<dots> = takeWhile ?P (c # cs) # (py_split (dropWhile ?P (c # cs)) @ py_split y)"
      using "1.IH" [OF Cons "1.prems"] by simp
    also have "\<dots> = py_split s @ py_split y"
      using Cons by (subst (2) py_split.simps) simp
    finally show ?thesis .
  qed
qed

lemma py_split_join_sp: "py_split (join_sp xs) = concat (map py_split xs)"
  by (induction xs rule: join_sp.induct) (simp_all add: py_split_append_space)

lemma first_few_words: "py_split (first_few lines) = ref_words lines"
  by (simp add: first_few_def ref_words_def py_split_join_sp comp_def)

lemma find_anchor_returns:
  "find_anchor wtl lines
     = Inr (snd (scan_best (anchor_score wtl (ref_words lines)) [0..<min 50 (length wtl)] (0, 0)))"
proof -
  have "anchor_loop wtl (first_few lines) [0..<min 50 (length wtl)] (0, 0)
        = Inr (scan_best (anchor_score wtl (ref_words lines)) [0..<min 50 (length wtl)] (0, 0))"
    by (simp add: anchor_loop_returns first_few_words)
  then show ?thesis by (simp add: find_anchor_def split: prod.splits)
qed

lemma find_anchor_spec:
  assumes "wtl \<noteq> []"
  shows "\<exists>a. find_anchor wtl lines = Inr a \<and> a < min 50 (length wtl)
      \<and> (\<forall>i<min 50 (length wtl). anchor_score wtl (ref_words lines) i
                                   \<le> anchor_score wtl (ref_words lines) a)
      \<and> (\<forall>i<a. anchor_score wtl (ref_words lines) i < anchor_score wtl (ref_words lines) a)"
proof -
  let ?f = "anchor_score wtl (ref_words lines)"
  let ?xs = "[0..<min 50 (length wtl)]"
  have srt: "sorted_wrt (<) ?xs" by simp
  have pos: "0 < min 50 (length wtl)" using assms by simp
  show ?thesis
  proof (cases "\<forall>x\<in>set ?xs. ?f x \<le> 0")
    case True
    then have "scan_best ?f ?xs (0, 0) = (0, 0)" by (rule scan_best_none [OF srt])
    then show ?thesis using True pos by (simp add: find_anchor_returns)
  next
    case False
    from scan_best_some [OF srt False, of 0]
    obtain j where j: "j \<in> set ?xs" "scan_best ?f ?xs (0, 0) = (?f j, j)"
      "\<forall>x\<in>set ?xs. ?f x \<le> ?f j" "\<forall>x\<in>set ?xs. x < j \<longrightarrow> ?f x < ?f j"
      by blast
    have "j < min 50 (length wtl)" using j(1) by simp
    moreover have "\<forall>i<min 50 (length wtl). ?f i \<le> ?f j" using j(3) by simp
    moreover have "\<forall>i<j. ?f i < ?f j" using j(4) \<open>j < min 50 (length wtl)\<close> by simp
    ultimately show ?thesis using j(2) by (simp add: find_anchor_returns)
  qed
qed

lemma build_timeline_timeline: "build_timeline segs [] = Inr (timeline segs)"
  by (simp add: timeline_def build_timeline_returns)

lemma fallback_align_empty:
  "timeline segs = [] \<Longrightarrow>
   fallback_align segs lines
     = Inr (map (\<lambda>l. \<lparr>res_line = l, res_start = None, res_end = None\<rparr>) lines)"
  by (simp add: fallback_align_def build_timeline_timeline)

lemma fallback_align_nonempty:
  "timeline segs \<noteq> [] \<Longrightarrow> find_anchor (timeline segs) lines = Inr a \<Longrightarrow>
   fallback_align segs lines = align_lines (timeline segs) (a, []) lines"
  by (simp add: fallback_align_def build_timeline_timeline)

subsection \<open>The timeline is chronological\<close>

lemma seg_toks_eq:
  "seg_toks seg =
     map (\<lambda>(i, w). \<lparr>tok_word = w,
            tok_start = seg_start seg + real i * ((seg_end seg - seg_start seg)
                          / real (length (py_split (normalize_text (seg_text seg))))),
            tok_end = seg_start seg + real i * ((seg_end seg - seg_start seg)
                          / real (length (py_split (normalize_text (seg_text seg)))))
                      + (seg_end seg - seg_start seg)
                          / real (length (py_split (normalize_text (seg_text seg))))\<rparr>)
         (enumerate 0 (py_split (normalize_text (seg_text seg))))"
  by (simp add: seg_toks_def seg_tokens_def py_truediv_def Let_def)

lemma seg_toks_length [simp]:
  "length (seg_toks seg) = length (py_split (normalize_text (seg_text seg)))"
  by (simp add: seg_toks_eq)

lemma seg_toks_nth:
  assumes "i < length (py_split (normalize_text (seg_text seg)))"
  shows "tok_word (seg_toks seg ! i) = py_split (normalize_text (seg_text seg)) ! i"
    and "tok_start (seg_toks seg ! i) = seg_start seg + real i * ((seg_end seg - seg_start seg)
                          / real (length (py_split (normalize_text (seg_text seg)))))"
    and "tok_end (seg_toks seg ! i) = tok_start (seg_toks seg ! i) + (seg_end seg - seg_start seg)
                          / real (length (py_split (normalize_text (seg_text seg))))"
  using assms by (simp_all add: seg_toks_eq nth_enumerate_eq)

lemma seg_toks_zero_duration:
  "seg_end seg = seg_start seg \<Longrightarrow> t \<in> set (seg_toks seg) \<Longrightarrow> tok_start t = tok_end t"
  by (auto simp: seg_toks_eq)

lemma seg_toks_bounds:
  assumes le: "seg_start seg \<le> seg_end seg" and t: "t \<in> set (seg_toks seg)"
  shows "seg_start seg \<le> tok_start t \<and> tok_start t \<le> tok_end t \<and> tok_end t \<le> seg_end seg"
proof -
  define k where "k = length (py_split (normalize_text (seg_text seg)))"
  define d where "d = seg_end seg - seg_start seg"
  define tpw where "tpw = d / real k"
  from t obtain i where i: "i < k" "t = seg_toks seg ! i"
    by (auto simp: in_set_conv_nth k_def)
  have k: "0 < real k" using i(1) by auto
  have d: "0 \<le> d" using le by (simp add: d_def)
  have tpw: "0 \<le> tpw" using d k by (simp add: tpw_def)
  have s: "tok_start t = seg_start seg + real i * tpw"
    using i by (simp add: seg_toks_nth k_def d_def tpw_def)
  have e: "tok_end t = tok_start t + tpw"
    using i by (simp add: seg_toks_nth k_def d_def tpw_def)
  have "real i * tpw + tpw = (real i + 1) * tpw"
    by (simp only: distrib_right mult_1)
  also have "\<dots> \<le> real k * tpw"
    using i(1) tpw by (intro mult_right_mono) simp_all
  also have "\<dots> = d" using k by (simp add: tpw_def)
  finally have up: "real i * tpw + tpw \<le> d" .
  have "0 \<le> real i * tpw" using tpw by (intro mult_nonneg_nonneg) simp_all
  then show ?thesis using s e up tpw by (simp add: d_def)
qed

lemma seg_toks_chronological:
  assumes le: "seg_start seg \<le> seg_end seg"
  shows "chronological (seg_toks seg)"
  unfolding chronological_def
proof (intro allI impI)
  fix j i
  define k where "k = length (py_split (normalize_text (seg_text seg)))"
  define tpw where "tpw = (seg_end seg - seg_start seg) / real k"
  assume j: "j < length (seg_toks seg)" and ij: "i \<le> j"
  then have jk: "j < k" and ik: "i < k" by (simp_all add: k_def)
  have tpw: "0 \<le> tpw" using le by (simp add: tpw_def)
  have "real i * tpw \<le> real j * tpw"
    using ij tpw by (intro mult_right_mono) simp_all
  moreover have "tok_start (seg_toks seg ! i) = seg_start seg + real i * tpw"
    using ik by (simp add: seg_toks_nth k_def tpw_def)
  moreover have "tok_end (seg_toks seg ! j) = seg_start seg + real j * tpw + tpw"
    using jk by (simp add: seg_toks_nth k_def tpw_def)
  ultimately show "tok_start (seg_toks seg ! i) \<le> tok_end (seg_toks seg ! j)"
    using tpw by simp
qed

lemma chronological_append:
  assumes "chronological xs" "chronological ys"
    and "\<forall>x\<in>set xs. \<forall>y\<in>set ys. tok_start x \<le> tok_end y"
  shows "chronological (xs @ ys)"
  unfolding chronological_def
proof (intro allI impI)
  fix j i
  assume j: "j < length (xs @ ys)" and ij: "i \<le> j"
  show "tok_start ((xs @ ys) ! i) \<le> tok_end ((xs @ ys) ! j)"
  proof (cases "j < length xs")
    case True
    then show ?thesis using assms(1) ij by (simp add: chronological_def nth_append)
  next
    case False
    show ?thesis
    proof (cases "i < length xs")
      case True
      then have "xs ! i \<in> set xs" by simp
      moreover have "ys ! (j - length xs) \<in> set ys" using False j by simp
      ultimately show ?thesis using assms(3) True False by (simp add: nth_append)
    next
      case i: False
      have "j - length xs < length ys" "i - length xs \<le> j - length xs"
        using False j ij by simp_all
      then show ?thesis using assms(2) i False by (simp add: chronological_def nth_append)
    qed
  qed
qed

lemma timeline_Cons: "timeline (seg # segs) = seg_toks seg @ timeline segs"
  by (simp add: timeline_eq)

lemma timeline_Nil [simp]: "timeline [] = []"
  by (simp add: timeline_eq)

lemma timeline_chronological:
  assumes "\<forall>s\<in>set segs. seg_start s \<le> seg_end s"
    and "sorted_wrt (\<lambda>a b. seg_end a \<le> seg_start b) segs"
  shows "chronological (timeline segs)"
  using assms
proof (induction segs)
  case Nil
  then show ?case by (simp add: chronological_def)
next
  case (Cons seg segs)
  from Cons.prems have le: "seg_start seg \<le> seg_end seg"
    and les: "\<forall>s\<in>set segs. seg_start s \<le> seg_end s"
    and after: "\<forall>s\<in>set segs. seg_end seg \<le> seg_start s"
    and srt: "sorted_wrt (\<lambda>a b. seg_end a \<le> seg_start b) segs"
    by simp_all
  have cross: "\<forall>x\<in>set (seg_toks seg). \<forall>y\<in>set (timeline segs). tok_start x \<le> tok_end y"
  proof (intro ballI)
    fix x y
    assume x: "x \<in> set (seg_toks seg)" and y: "y \<in> set (timeline segs)"
    from y obtain s where s: "s \<in> set segs" "y \<in> set (seg_toks s)"
      by (auto simp: timeline_eq)
    have "tok_start x \<le> seg_end seg" using seg_toks_bounds [OF le x] by simp
    also have "\<dots> \<le> seg_start s" using after s(1) by simp
    also have "\<dots> \<le> tok_end y" using seg_toks_bounds [OF _ s(2)] les s(1) by force
    finally show "tok_start x \<le> tok_end y" .
  qed
  show ?case
    unfolding timeline_Cons
    by (rule chronological_append [OF seg_toks_chronological [OF le] Cons.IH [OF les srt] cross])
qed

subsection \<open>Output length, order and line text\<close>

lemma dropWhile_hd_id: "xs \<noteq> [] \<Longrightarrow> \<not> P (hd xs) \<Longrightarrow> dropWhile P xs = xs"
  by (cases xs) simp_all

lemma py_strip_idem: "py_strip (py_strip s) = py_strip s"
proof -
  define u where "u = dropWhile is_space s"
  define w where "w = dropWhile is_space (rev u)"
  have t: "py_strip s = rev w" by (simp add: py_strip_def u_def w_def)
  have strip_l: "dropWhile is_space (rev w) = rev w"
  proof (cases "w = []")
    case True
    then show ?thesis by simp
  next
    case False
    have "rev u = takeWhile is_space (rev u) @ w"
      by (simp add: w_def)
    then have "u = rev w @ rev (takeWhile is_space (rev u))"
      by (metis rev_append rev_rev_ident)
    then have hd: "hd u = hd (rev w)" using False by (metis hd_append2 rev_is_Nil_conv)
    have "u \<noteq> []" using False by (auto simp: w_def)
    then have "\<not> is_space (hd u)" unfolding u_def by (rule hd_dropWhile)
    then show ?thesis using hd False by (intro dropWhile_hd_id) simp_all
  qed
  have strip_r: "dropWhile is_space w = w" by (simp add: w_def)
  show ?thesis
    unfolding t by (simp add: py_strip_def strip_l strip_r)
qed

lemma py_strip_Nil [simp]: "py_strip [] = []"
  by (simp add: py_strip_def)

lemma normalize_text_Nil [simp]: "normalize_text [] = []"
  by (simp add: normalize_text_def py_lower_def)

lemma line_words_blank: "py_strip line = [] \<Longrightarrow> line_words line = []"
  by (simp add: line_words_def)

lemma align_states_prefix:
  "i \<le> j \<Longrightarrow> j \<le> length lines \<Longrightarrow>
   take (length (snd st) + i) (snd (align_states wtl st lines ! j))
     = snd (align_states wtl st lines ! i)"
proof (induction j)
  case 0
  then show ?case
    using align_states_results [of 0 lines wtl st] by auto
next
  case (Suc j)
  obtain newi where newi: "snd (align_states wtl st lines ! i) = snd st @ newi" "length newi = i"
    using align_states_results [of i lines wtl st] Suc.prems by auto
  show ?case
  proof (cases "i = Suc j")
    case True
    then show ?thesis using newi by simp
  next
    case False
    then have ij: "i \<le> j" and j: "j < length lines" using Suc.prems by auto
    obtain newj where newj: "snd (align_states wtl st lines ! j) = snd st @ newj" "length newj = j"
      using align_states_results [of j lines wtl st] j by auto
    obtain p' r where "align_line wtl (align_states wtl st lines ! j) (lines ! j)
        = Inr (p', snd (align_states wtl st lines ! j) @ [r])"
      using align_line_step_state by blast
    with align_states_step [OF j, of wtl st]
    have "align_states wtl st lines ! Suc j = (p', snd (align_states wtl st lines ! j) @ [r])"
      by simp
    then have "take (length (snd st) + i) (snd (align_states wtl st lines ! Suc j))
        = take (length (snd st) + i) (snd (align_states wtl st lines ! j))"
      using newj ij by simp
    then show ?thesis using Suc.IH [OF ij] j by simp
  qed
qed

text \<open>The run from an empty result list: the state before line \<open>i\<close> holds the first
  \<open>i\<close> final results, and the step for line \<open>i\<close> emits the \<open>i\<close>-th.\<close>

lemma align_lines_nth:
  assumes run: "align_lines wtl (p, []) lines = Inr rs" and i: "i < length lines"
  shows "snd (align_states wtl (p, []) lines ! i) = take i rs"
    and "align_line wtl (align_states wtl (p, []) lines ! i) (lines ! i)
           = Inr (fst (align_states wtl (p, []) lines ! Suc i), take i rs @ [rs ! i])"
    and "length rs = length lines"
proof -
  let ?sts = "align_states wtl (p, []) lines"
  have rs: "rs = snd (?sts ! length lines)"
    using run align_states_final [of wtl "(p, [])" lines] by simp
  obtain new where "snd (?sts ! length lines) = snd (p, []) @ new" "length new = length lines"
    using align_states_results [of "length lines" lines wtl "(p, [])"] by auto
  then show len: "length rs = length lines" using rs by simp
  show pre: "snd (?sts ! i) = take i rs"
    using align_states_prefix [of i "length lines" lines "(p, [])" wtl] i rs by simp
  have "snd (?sts ! Suc i) = take (Suc i) rs"
    using align_states_prefix [of "Suc i" "length lines" lines "(p, [])" wtl] i rs by simp
  also have "\<dots> = take i rs @ [rs ! i]"
    using i len by (simp add: take_Suc_conv_app_nth)
  finally have "?sts ! Suc i = (fst (?sts ! Suc i), take i rs @ [rs ! i])"
    by (metis prod.collapse)
  then show "align_line wtl (?sts ! i) (lines ! i)
           = Inr (fst (?sts ! Suc i), take i rs @ [rs ! i])"
    using align_states_step [OF i, of wtl "(p, [])"] by simp
qed

lemma fallback_align_cases:
  "(timeline segs = [] \<and>
      fallback_align segs lines
        = Inr (map (\<lambda>l. \<lparr>res_line = l, res_start = None, res_end = None\<rparr>) lines))
   \<or> (timeline segs \<noteq> [] \<and>
        (\<exists>a. find_anchor (timeline segs) lines = Inr a \<and> a < length (timeline segs)
           \<and> fallback_align segs lines = align_lines (timeline segs) (a, []) lines))"
proof (cases "timeline segs = []")
  case True
  then show ?thesis by (simp add: fallback_align_empty)
next
  case False
  from find_anchor_spec [OF False, of lines]
  obtain a where "find_anchor (timeline segs) lines = Inr a" "a < min 50 (length (timeline segs))"
    by blast
  then show ?thesis using False by (auto simp: fallback_align_nonempty)
qed

text \<open>
  Claim C6. For every segment list and every list of lyric lines, \<open>fallback_align\<close>
  returns exactly one result per lyric line, blank lines and the case of an empty
  timeline included, and the \<open>i\<close>-th result belongs to the \<open>i\<close>-th line: up to white
  space at its ends, its \<open>line\<close> field is the \<open>i\<close>-th line.
\<close>

theorem output_length_and_order:
  "\<exists>rs. fallback_align segs lines = Inr rs \<and> length rs = length lines
      \<and> map (\<lambda>r. py_strip (res_line r)) rs = map py_strip lines"
proof -
  from fallback_align_cases [of segs lines] show ?thesis
  proof (elim disjE conjE exE)
    assume "fallback_align segs lines
        = Inr (map (\<lambda>l. \<lparr>res_line = l, res_start = None, res_end = None\<rparr>) lines)"
    then show ?thesis by (simp add: comp_def)
  next
    fix a
    assume fa: "fallback_align segs lines = align_lines (timeline segs) (a, []) lines"
    obtain new where new: "align_lines (timeline segs) (a, []) lines = Inr ([] @ new)"
      "map res_line new = map py_strip lines"
      using align_lines_lines [of "timeline segs" a "[]" lines] by blast
    have "map (\<lambda>r. py_strip (res_line r)) new = map py_strip (map res_line new)"
      by (simp add: comp_def)
    also have "\<dots> = map py_strip lines"
      by (simp add: new(2) py_strip_idem)
    finally have "map (\<lambda>r. py_strip (res_line r)) new = map py_strip lines" .
    moreover have "length new = length lines"
      using new(2) by (metis length_map)
    ultimately show ?thesis using fa new(1) by simp
  qed
qed

text \<open>
  Claim C8, as amended. With a non-empty timeline the \<open>line\<close> field of every result is
  the input line with the white space at its two ends stripped, so a blank line gives the
  empty string; case, punctuation and inner white space are kept, normalization being
  applied to comparison copies only. With an empty timeline the \<open>line\<close> field is the
  input line, character for character.
\<close>

theorem line_text_stripped:
  "\<exists>rs. fallback_align segs lines = Inr rs
      \<and> map res_line rs = (if timeline segs = [] then lines else map py_strip lines)"
proof -
  from fallback_align_cases [of segs lines] show ?thesis
  proof (elim disjE conjE exE)
    assume "timeline segs = []" "fallback_align segs lines
        = Inr (map (\<lambda>l. \<lparr>res_line = l, res_start = None, res_end = None\<rparr>) lines)"
    then show ?thesis by (simp add: comp_def)
  next
    fix a
    assume ne: "timeline segs \<noteq> []"
      and fa: "fallback_align segs lines = align_lines (timeline segs) (a, []) lines"
    obtain new where new: "align_lines (timeline segs) (a, []) lines = Inr ([] @ new)"
      "map res_line new = map py_strip lines"
      using align_lines_lines [of "timeline segs" a "[]" lines] by blast
    then show ?thesis using fa ne by simp
  qed
qed

text \<open>
  Claim C8 as stated fails on a line with white space at its ends: the result keeps the
  case and the punctuation of \<open>Hello!\<close> but not the blanks around it.
\<close>

theorem line_text_counterexample:
  "fallback_align [\<lparr>seg_text = ''hello'', seg_start = 0, seg_end = 1\<rparr>] ['' Hello! '']
     = Inr [\<lparr>res_line = ''Hello!'', res_start = Some 0, res_end = Some 1\<rparr>]
   \<and> ''Hello!'' \<noteq> '' Hello! ''"
  by code_simp

subsection \<open>Totality\<close>

lemma chosen_offset_lt_iff: "chosen_offset wtl p line < length wtl \<longleftrightarrow> p < length wtl"
  using chosen_offset_lt [of p wtl line] chosen_offset_exhausted [of wtl p line]
  by (cases "p < length wtl") simp_all

lemma matched_branch_iff:
  "matched_branch wtl st line \<longleftrightarrow>
     py_strip line \<noteq> [] \<and> line_words line \<noteq> [] \<and> fst st < length wtl"
  by (simp add: matched_branch_def chosen_offset_lt_iff)

lemma gap_branch_iff:
  "gap_branch wtl st line \<longleftrightarrow>
     py_strip line \<noteq> [] \<and> line_words line \<noteq> [] \<and> length wtl \<le> fst st"
  by (auto simp add: gap_branch_def chosen_offset_lt_iff)

lemma align_lines_total: "\<exists>rs. align_lines wtl st lines = Inr rs"
  using align_states_final by blast

lemma fallback_align_total: "\<exists>rs. fallback_align segs lines = Inr rs"
  using fallback_align_cases [of segs lines] align_lines_total by metis

lemma no_words_null:
  assumes run: "fallback_align segs lines = Inr rs" and i: "i < length lines"
    and nw: "line_words (lines ! i) = []"
  shows "res_start (rs ! i) = None \<and> res_end (rs ! i) = None"
proof -
  from fallback_align_cases [of segs lines] show ?thesis
  proof (elim disjE conjE exE)
    assume "fallback_align segs lines
        = Inr (map (\<lambda>l. \<lparr>res_line = l, res_start = None, res_end = None\<rparr>) lines)"
    then show ?thesis using run i by auto
  next
    fix a
    assume fa: "fallback_align segs lines = align_lines (timeline segs) (a, []) lines"
    let ?sts = "align_states (timeline segs) (a, []) lines"
    have al: "align_lines (timeline segs) (a, []) lines = Inr rs" using fa run by simp
    note nth = align_lines_nth [OF al i]
    have st: "?sts ! i = (fst (?sts ! i), take i rs)"
      using nth(1) by (metis prod.collapse)
    show ?thesis
    proof (cases "py_strip (lines ! i) = []")
      case True
      from align_line_blank [OF True, of "timeline segs" "fst (?sts ! i)" "take i rs"] nth(2) st
      show ?thesis by simp
    next
      case False
      from align_line_no_words [OF False nw, of "timeline segs" "fst (?sts ! i)" "take i rs"] nth(2) st
      show ?thesis by simp
    qed
  qed
qed

text \<open>
  Claim C9. \<open>fallback_align\<close> returns a result list for every segment list and every list
  of lyric lines: no branch of the model raises \<open>IndexError\<close> or \<open>ZeroDivisionError\<close>, and
  every loop is a terminating recursion. A segment without words contributes no token (so
  the word count is never a zero divisor), a segment of zero duration contributes tokens
  of zero width, and a line whose normalized text has no word gets null timing.
\<close>

theorem fallback_align_never_raises:
  "(\<exists>rs. fallback_align segs lines = Inr rs
       \<and> (\<forall>i<length lines. line_words (lines ! i) = []
              \<longrightarrow> res_start (rs ! i) = None \<and> res_end (rs ! i) = None))
   \<and> (\<exists>toks. seg_tokens seg = Inr toks
       \<and> length toks = length (py_split (normalize_text (seg_text seg)))
       \<and> (seg_end seg = seg_start seg \<longrightarrow> (\<forall>t\<in>set toks. tok_start t = tok_end t)))
   \<and> (\<exists>wtl. build_timeline segs [] = Inr wtl)"
proof (intro conjI)
  obtain rs where rs: "fallback_align segs lines = Inr rs"
    using fallback_align_total by blast
  then show "\<exists>rs. fallback_align segs lines = Inr rs
       \<and> (\<forall>i<length lines. line_words (lines ! i) = []
              \<longrightarrow> res_start (rs ! i) = None \<and> res_end (rs ! i) = None)"
    using no_words_null [OF rs] by blast
  show "\<exists>toks. seg_tokens seg = Inr toks
       \<and> length toks = length (py_split (normalize_text (seg_text seg)))
       \<and> (seg_end seg = seg_start seg \<longrightarrow> (\<forall>t\<in>set toks. tok_start t = tok_end t))"
    using seg_toks_zero_duration [of seg] by (auto simp: seg_tokens_returns)
  show "\<exists>wtl. build_timeline segs [] = Inr wtl"
    by (simp add: build_timeline_returns)
qed

text \<open>Claim C9 on two segments, the second of zero duration, and three lines, the second
  blank and the third pure punctuation.\<close>

theorem fallback_align_never_raises_witness:
  "fallback_align [\<lparr>seg_text = ''one two'', seg_start = 0, seg_end = 2\<rparr>,
                   \<lparr>seg_text = ''three'', seg_start = 2, seg_end = 2\<rparr>]
                  [''one two three'', '''', ''?!'']
     = Inr [\<lparr>res_line = ''one two three'', res_start = Some 0, res_end = Some 2\<rparr>,
            \<lparr>res_line = '''', res_start = None, res_end = None\<rparr>,
            \<lparr>res_line = ''?!'', res_start = None, res_end = None\<rparr>]
   \<and> seg_tokens \<lparr>seg_text = ''three'', seg_start = 2, seg_end = 2\<rparr>
     = Inr [\<lparr>tok_word = ''three'', tok_start = 2, tok_end = 2\<rparr>]"
proof -
  have w: "line_words ''?!'' = []" by code_simp
  have r: "fallback_align [\<lparr>seg_text = ''one two'', seg_start = 0, seg_end = 2\<rparr>,
                   \<lparr>seg_text = ''three'', seg_start = 2, seg_end = 2\<rparr>]
                  [''one two three'', '''', ''?!'']
     = Inr [\<lparr>res_line = ''one two three'', res_start = Some 0, res_end = Some 2\<rparr>,
            \<lparr>res_line = '''', res_start = None, res_end = None\<rparr>,
            \<lparr>res_line = ''?!'', res_start = None, res_end = None\<rparr>]"
    by code_simp
  have t: "seg_tokens \<lparr>seg_text = ''three'', seg_start = 2, seg_end = 2\<rparr>
     = Inr [\<lparr>tok_word = ''three'', tok_start = 2, tok_end = 2\<rparr>]"
    by code_simp
  show ?thesis
    using fallback_align_never_raises
       [of "[\<lparr>seg_text = ''one two'', seg_start = 0, seg_end = 2\<rparr>,
             \<lparr>seg_text = ''three'', seg_start = 2, seg_end = 2\<rparr>]"
           "[''one two three'', '''', ''?!'']"
           "\<lparr>seg_text = ''three'', seg_start = 2, seg_end = 2\<rparr>"] w r t
    by simp
qed

subsection \<open>The pointer is monotonic\<close>

lemma align_states_pointer_step:
  assumes i: "i < length lines" and m: "matched_branch wtl (align_states wtl st lines ! i) (lines ! i)"
  shows "chosen_offset wtl (fst (align_states wtl st lines ! i)) (lines ! i)
           < fst (align_states wtl st lines ! Suc i)"
proof -
  let ?s = "align_states wtl st lines ! i"
  let ?j = "chosen_offset wtl (fst ?s) (lines ! i)"
  from m have c: "py_strip (lines ! i) \<noteq> []" "line_words (lines ! i) \<noteq> []" "fst ?s < length wtl"
    by (simp_all add: matched_branch_iff)
  have "align_line wtl (fst ?s, snd ?s) (lines ! i)
      = Inr (end_index wtl ?j (length (line_words (lines ! i))) + 1,
             snd ?s @ [\<lparr>res_line = py_strip (lines ! i),
                   res_start = Some (tok_start (wtl ! ?j)),
                   res_end = Some (tok_end (wtl ! end_index wtl ?j
                                                     (length (line_words (lines ! i)))))\<rparr>])"
    by (rule align_line_matched [OF c])
  with align_states_step [OF i, of wtl st]
  have "fst (align_states wtl st lines ! Suc i)
        = end_index wtl ?j (length (line_words (lines ! i))) + 1"
    by simp
  moreover have "?j \<le> end_index wtl ?j (length (line_words (lines ! i)))"
    using end_index_bounds [of ?j wtl "length (line_words (lines ! i))"] c
    by (simp add: chosen_offset_lt)
  ultimately show ?thesis by simp
qed

text \<open>
  Claim C7. In the run of \<open>fallback_align\<close> on a non-empty timeline, from the anchor, the
  position pointer never decreases from one loop state to a later one, and of two matched
  lines the later one's chosen offset is greater than the earlier one's (so it is greater
  or equal, as claimed): the search of a line starts at the pointer the lines before it
  have left, which lies beyond their chosen offsets.
\<close>

theorem pointer_monotonic:
  assumes "timeline segs \<noteq> []"
    and "find_anchor (timeline segs) lines = Inr a"
    and "sts = align_states (timeline segs) (a, []) lines"
  shows "fallback_align segs lines = Inr (snd (sts ! length lines))
    \<and> length sts = Suc (length lines)
    \<and> (\<forall>i j. i \<le> j \<and> j \<le> length lines \<longrightarrow> fst (sts ! i) \<le> fst (sts ! j))
    \<and> (\<forall>i j. i < j \<and> j < length lines
           \<and> matched_branch (timeline segs) (sts ! i) (lines ! i)
           \<and> matched_branch (timeline segs) (sts ! j) (lines ! j)
         \<longrightarrow> chosen_offset (timeline segs) (fst (sts ! i)) (lines ! i)
               < chosen_offset (timeline segs) (fst (sts ! j)) (lines ! j))"
proof (intro conjI allI impI)
  show "fallback_align segs lines = Inr (snd (sts ! length lines))"
    using assms by (simp add: fallback_align_nonempty align_states_final)
  show "length sts = Suc (length lines)"
    using assms(3) by (simp add: align_states_length)
next
  fix i j
  assume "i \<le> j \<and> j \<le> length lines"
  then show "fst (sts ! i) \<le> fst (sts ! j)"
    unfolding assms(3) by (intro align_states_pointer_mono) simp_all
next
  fix i j
  assume h: "i < j \<and> j < length lines
           \<and> matched_branch (timeline segs) (sts ! i) (lines ! i)
           \<and> matched_branch (timeline segs) (sts ! j) (lines ! j)"
  then have i: "i < length lines" and ij: "Suc i \<le> j" and j: "j \<le> length lines" by simp_all
  have "chosen_offset (timeline segs) (fst (sts ! i)) (lines ! i) < fst (sts ! Suc i)"
    using h unfolding assms(3) by (intro align_states_pointer_step [OF i]) simp
  also have "\<dots> \<le> fst (sts ! j)"
    unfolding assms(3) by (rule align_states_pointer_mono [OF ij j])
  also have "\<dots> \<le> chosen_offset (timeline segs) (fst (sts ! j)) (lines ! j)"
    by (rule chosen_offset_ge)
  finally show "chosen_offset (timeline segs) (fst (sts ! i)) (lines ! i)
               < chosen_offset (timeline segs) (fst (sts ! j)) (lines ! j)" .
qed

text \<open>Claim C7 on one segment of three words and the lines \<open>a\<close> and \<open>c\<close>: both lines are
  matched, the first at offset 0 and the second at offset 2.\<close>

theorem pointer_monotonic_witness:
  "timeline [\<lparr>seg_text = ''a b c'', seg_start = 0, seg_end = 3\<rparr>] \<noteq> []
   \<and> find_anchor (timeline [\<lparr>seg_text = ''a b c'', seg_start = 0, seg_end = 3\<rparr>]) [''a'', ''c'']
       = Inr 0
   \<and> map fst (align_states (timeline [\<lparr>seg_text = ''a b c'', seg_start = 0, seg_end = 3\<rparr>])
                 (0, []) [''a'', ''c'']) = [0, 1, 3]
   \<and> chosen_offset (timeline [\<lparr>seg_text = ''a b c'', seg_start = 0, seg_end = 3\<rparr>]) 0 ''a''
       < chosen_offset (timeline [\<lparr>seg_text = ''a b c'', seg_start = 0, seg_end = 3\<rparr>]) 1 ''c''"
proof -
  let ?S = "[\<lparr>seg_text = ''a b c'', seg_start = 0, seg_end = 3\<rparr>]"
  let ?L = "[''a'', ''c'']"
  let ?sts = "align_states (timeline ?S) (0, []) ?L"
  have h1: "timeline ?S \<noteq> []" by code_simp
  have h2: "find_anchor (timeline ?S) ?L = Inr 0" by code_simp
  have p: "map fst ?sts = [0, 1, 3]" by code_simp
  have len: "length ?sts = 3" by (simp only: align_states_length) simp
  have p0: "fst (?sts ! 0) = 0" by (simp only: align_states_0 fst_conv)
  have "map fst ?sts ! 1 = [0, 1, 3] ! 1" by (simp only: p)
  then have p1: "fst (?sts ! 1) = 1" using len by (simp only: nth_map) simp
  have m0: "matched_branch (timeline ?S) (?sts ! 0) (?L ! 0)" by code_simp
  have m1: "matched_branch (timeline ?S) (?sts ! 1) (?L ! 1)" by code_simp
  from pointer_monotonic [OF h1 h2 refl]
  have "\<forall>i j. i < j \<and> j < length ?L
           \<and> matched_branch (timeline ?S) (?sts ! i) (?L ! i)
           \<and> matched_branch (timeline ?S) (?sts ! j) (?L ! j)
         \<longrightarrow> chosen_offset (timeline ?S) (fst (?sts ! i)) (?L ! i)
               < chosen_offset (timeline ?S) (fst (?sts ! j)) (?L ! j)"
    by blast
  from this [rule_format, of 0 1] m0 m1
  have "chosen_offset (timeline ?S) (fst (?sts ! 0)) (?L ! 0)
               < chosen_offset (timeline ?S) (fst (?sts ! 1)) (?L ! 1)"
    by simp
  then have "chosen_offset (timeline ?S) 0 ''a'' < chosen_offset (timeline ?S) 1 ''c''"
    by (simp only: p0 p1) simp
  then show ?thesis using h1 h2 p by blast
qed

subsection \<open>The gap filler is reached with a previous result\<close>

lemma find_anchor_lt:
  "wtl \<noteq> [] \<Longrightarrow> find_anchor wtl lines = Inr a \<Longrightarrow> a < length wtl"
  using find_anchor_spec [of wtl lines] by auto

lemma run_invariant:
  assumes "a < length wtl" and "i \<le> length lines"
  shows "(length wtl \<le> fst (align_states wtl (a, []) lines ! i)
            \<longrightarrow> snd (align_states wtl (a, []) lines ! i) \<noteq> [])
       \<and> (\<forall>r\<in>set (snd (align_states wtl (a, []) lines ! i)).
             res_start r = None \<longleftrightarrow> res_end r = None)"
proof (rule align_states_invariant
    [where I = "\<lambda>s. (length wtl \<le> fst s \<longrightarrow> snd s \<noteq> [])
                   \<and> (\<forall>r\<in>set (snd s). res_start r = None \<longleftrightarrow> res_end r = None)"])
  show "(length wtl \<le> fst (a, []) \<longrightarrow> snd (a, []) \<noteq> [])
       \<and> (\<forall>r\<in>set (snd (a, [])). res_start r = None \<longleftrightarrow> res_end r = None)"
    using assms(1) by simp
  show "i \<le> length lines" by (rule assms(2))
next
  fix s line s'
  assume I: "(length wtl \<le> fst s \<longrightarrow> snd s \<noteq> [])
       \<and> (\<forall>r\<in>set (snd s). res_start r = None \<longleftrightarrow> res_end r = None)"
    and st: "align_line wtl s line = Inr s'"
  obtain p' r where "align_line wtl s line = Inr (p', snd s @ [r])"
      "res_start r = None \<longleftrightarrow> res_end r = None"
    using align_line_step_state [of wtl s line] by auto
  with st have "s' = (p', snd s @ [r])" by simp
  then show "(length wtl \<le> fst s' \<longrightarrow> snd s' \<noteq> [])
       \<and> (\<forall>r\<in>set (snd s'). res_start r = None \<longleftrightarrow> res_end r = None)"
    using I \<open>res_start r = None \<longleftrightarrow> res_end r = None\<close> by auto
qed

text \<open>
  Claim C10. In the run of \<open>fallback_align\<close> on a non-empty timeline, whenever the loop
  body reaches the gap filler for line \<open>i\<close>, the results emitted so far are the first
  \<open>i\<close> final results and are not empty; if the previous result has a null end it has a
  null start too, so the branch that reads the previous start never yields a time; and
  the synthesized result either starts at the previous result's end and spans 2 seconds,
  or is exactly \<open>start = 0\<close>, \<open>end = 2\<close>.
\<close>

theorem gap_filler_previous_result:
  assumes "timeline segs \<noteq> []"
    and "find_anchor (timeline segs) lines = Inr a"
    and "sts = align_states (timeline segs) (a, []) lines"
    and "i < length lines"
    and "gap_branch (timeline segs) (sts ! i) (lines ! i)"
  shows "\<exists>rs. fallback_align segs lines = Inr rs \<and> snd (sts ! i) = take i rs
       \<and> snd (sts ! i) \<noteq> [] \<and> last (snd (sts ! i)) = rs ! (i - 1)
       \<and> (res_end (rs ! (i - 1)) = None \<longrightarrow> res_start (rs ! (i - 1)) = None)
       \<and> ((\<exists>e. res_end (rs ! (i - 1)) = Some e
                \<and> res_start (rs ! i) = Some e \<and> res_end (rs ! i) = Some (e + 2))
           \<or> (res_end (rs ! (i - 1)) = None
                \<and> res_start (rs ! i) = Some 0 \<and> res_end (rs ! i) = Some 2))"
proof -
  let ?wtl = "timeline segs"
  obtain rs where al: "align_lines ?wtl (a, []) lines = Inr rs"
    using align_lines_total by blast
  have fa: "fallback_align segs lines = Inr rs"
    using assms(1,2) al by (simp add: fallback_align_nonempty)
  note nth = align_lines_nth [OF al assms(4), folded assms(3)]
  have a: "a < length ?wtl" using assms(1,2) by (rule find_anchor_lt)
  note inv = run_invariant [OF a, of i lines, folded assms(3)]
  from assms(5) have c: "py_strip (lines ! i) \<noteq> []" "line_words (lines ! i) \<noteq> []"
      "length ?wtl \<le> fst (sts ! i)"
    by (simp_all add: gap_branch_iff)
  have ne: "take i rs \<noteq> []" using inv c(3) assms(4) nth(1) by simp
  then have i0: "0 < i" by (cases i) simp_all
  have lst: "last (take i rs) = rs ! (i - 1)"
    using i0 assms(4) nth(3) ne by (simp add: last_conv_nth)
  have "rs ! (i - 1) \<in> set (take i rs)" using ne lst by (metis last_in_set)
  then have cons: "res_start (rs ! (i - 1)) = None \<longleftrightarrow> res_end (rs ! (i - 1)) = None"
    using inv assms(4) nth(1) by simp
  have st: "sts ! i = (fst (sts ! i), take i rs)"
    using nth(1) by (metis prod.collapse)
  from align_line_exhausted [OF c, of "take i rs"] nth(2) st
  have ri: "rs ! i = \<lparr>res_line = py_strip (lines ! i), res_start = Some (gap_base (take i rs)),
                       res_end = Some (gap_base (take i rs) + 2)\<rparr>"
    by simp
  have shape: "(\<exists>e. res_end (rs ! (i - 1)) = Some e
                \<and> res_start (rs ! i) = Some e \<and> res_end (rs ! i) = Some (e + 2))
           \<or> (res_end (rs ! (i - 1)) = None
                \<and> res_start (rs ! i) = Some 0 \<and> res_end (rs ! i) = Some 2)"
  proof (cases "res_end (rs ! (i - 1))")
    case None
    then have "res_start (rs ! (i - 1)) = None" using cons by simp
    then have "gap_base (take i rs) = 0" using None ne lst by (simp add: gap_base_def)
    then show ?thesis using None ri by simp
  next
    case (Some e)
    then have "gap_base (take i rs) = e" using ne lst by (simp add: gap_base_def)
    then show ?thesis using Some ri by simp
  qed
  show ?thesis
    using fa nth(1) ne lst cons shape by (intro exI [of _ rs]) simp
qed

text \<open>Claim C10 on a one-word timeline and the lines \<open>a\<close>, \<open>b\<close>: the second line finds the
  timeline exhausted and starts at the end of the first.\<close>

theorem gap_filler_previous_result_witness:
  "timeline [\<lparr>seg_text = ''a'', seg_start = 0, seg_end = 1\<rparr>] \<noteq> []
   \<and> find_anchor (timeline [\<lparr>seg_text = ''a'', seg_start = 0, seg_end = 1\<rparr>]) [''a'', ''b''] = Inr 0
   \<and> gap_branch (timeline [\<lparr>seg_text = ''a'', seg_start = 0, seg_end = 1\<rparr>])
        (align_states (timeline [\<lparr>seg_text = ''a'', seg_start = 0, seg_end = 1\<rparr>]) (0, [])
           [''a'', ''b''] ! 1) ([''a'', ''b''] ! 1)
   \<and> fallback_align [\<lparr>seg_text = ''a'', seg_start = 0, seg_end = 1\<rparr>] [''a'', ''b'']
       = Inr [\<lparr>res_line = ''a'', res_start = Some 0, res_end = Some 1\<rparr>,
              \<lparr>res_line = ''b'', res_start = Some 1, res_end = Some 3\<rparr>]
   \<and> snd (align_states (timeline [\<lparr>seg_text = ''a'', seg_start = 0, seg_end = 1\<rparr>]) (0, [])
           [''a'', ''b''] ! 1) \<noteq> []"
proof -
  let ?S = "[\<lparr>seg_text = ''a'', seg_start = 0, seg_end = 1\<rparr>]"
  let ?L = "[''a'', ''b'']"
  let ?sts = "align_states (timeline ?S) (0, []) ?L"
  have h1: "timeline ?S \<noteq> []" by code_simp
  have h2: "find_anchor (timeline ?S) ?L = Inr 0" by code_simp
  have h4: "(1::nat) < length ?L" by simp
  have h5: "gap_branch (timeline ?S) (?sts ! 1) (?L ! 1)" by code_simp
  have r: "fallback_align ?S ?L
       = Inr [\<lparr>res_line = ''a'', res_start = Some 0, res_end = Some 1\<rparr>,
              \<lparr>res_line = ''b'', res_start = Some 1, res_end = Some 3\<rparr>]"
    by code_simp
  from gap_filler_previous_result [OF h1 h2 refl h4 h5]
  have "snd (?sts ! 1) \<noteq> []" by blast
  then show ?thesis using h1 h2 h5 r by blast
qed

subsection \<open>The gap filler\<close>

lemma line_words_nonblank: "line_words line \<noteq> [] \<Longrightarrow> py_strip line \<noteq> []"
  using line_words_blank by blast

lemma gap_base_snoc:
  "gap_base (rs @ [\<lparr>res_line = l, res_start = Some b, res_end = Some e\<rparr>]) = e"
  by (simp add: gap_base_def)

lemma gap_base_cases:
  "(\<forall>e. results \<noteq> [] \<and> res_end (last results) = Some e \<longrightarrow> gap_base results = e)
   \<and> (\<forall>s. results \<noteq> [] \<and> res_end (last results) = None \<and> res_start (last results) = Some s
          \<longrightarrow> gap_base results = s)
   \<and> (results = [] \<or> (res_end (last results) = None \<and> res_start (last results) = None)
          \<longrightarrow> gap_base results = 0)"
  by (auto simp: gap_base_def)

lemma gap_run:
  assumes "length wtl \<le> p" and "\<forall>l\<in>set ls. line_words l \<noteq> []"
  shows "align_lines wtl (p, rs) ls
     = Inr (rs @ map (\<lambda>(k, l). \<lparr>res_line = py_strip l,
                                  res_start = Some (gap_base rs + 2 * real k),
                                  res_end = Some (gap_base rs + 2 * real k + 2)\<rparr>)
                   (enumerate 0 ls))"
  using assms(2)
proof (induction ls arbitrary: rs)
  case Nil
  then show ?case by simp
next
  case (Cons l ls)
  let ?r = "\<lparr>res_line = py_strip l, res_start = Some (gap_base rs),
             res_end = Some (gap_base rs + 2)\<rparr>"
  from Cons.prems have w: "line_words l \<noteq> []" and ws: "\<forall>l\<in>set ls. line_words l \<noteq> []"
    by simp_all
  have step: "align_line wtl (p, rs) l = Inr (p, rs @ [?r])"
    using w assms(1) by (intro align_line_exhausted line_words_nonblank)
  have shift: "map (\<lambda>(k, l). \<lparr>res_line = py_strip l,
                                  res_start = Some (gap_base rs + 2 * real k),
                                  res_end = Some (gap_base rs + 2 * real k + 2)\<rparr>)
                 (enumerate (Suc 0) ls)
             = map (\<lambda>(k, l). \<lparr>res_line = py_strip l,
                                  res_start = Some (gap_base rs + 2 + 2 * real k),
                                  res_end = Some (gap_base rs + 2 + 2 * real k + 2)\<rparr>)
                 (enumerate 0 ls)"
    by (simp add: enumerate_Suc_eq [of 0] comp_def case_prod_beta algebra_simps)
  show ?case
    using step Cons.IH [OF ws, of "rs @ [?r]"] shift
    by (simp add: gap_base_snoc)
qed

text \<open>
  Claim C4, as amended: the lines concerned are those whose normalized text has at least
  one word. When the pointer has reached the end of the timeline, such a line is given
  \<open>start = prev.end\<close>, \<open>end = prev.end + 2\<close> if the previous result has an end,
  else \<open>start = prev.start\<close>, \<open>end = prev.start + 2\<close> if it has a start, else
  \<open>start = 0\<close>, \<open>end = 2\<close>; the pointer stays where it is. A run \<open>ls\<close> of such lines
  gets the times \<open>b + 2k\<close> to \<open>b + 2k + 2\<close> for its \<open>k\<close>-th line, \<open>b\<close> being the start of
  the first: strictly increasing, each line starting at the end of the line before it
  and spanning 2 seconds.
\<close>

theorem gap_filler_synthesis:
  assumes "length wtl \<le> p" and "line_words line \<noteq> []" and "\<forall>l\<in>set ls. line_words l \<noteq> []"
  shows "(\<exists>r. align_line wtl (p, results) line = Inr (p, results @ [r])
           \<and> res_line r = py_strip line
           \<and> res_start r = Some (gap_base results) \<and> res_end r = Some (gap_base results + 2)
           \<and> (\<forall>e. results \<noteq> [] \<and> res_end (last results) = Some e
                  \<longrightarrow> res_start r = Some e \<and> res_end r = Some (e + 2))
           \<and> (\<forall>s. results \<noteq> [] \<and> res_end (last results) = None
                    \<and> res_start (last results) = Some s
                  \<longrightarrow> res_start r = Some s \<and> res_end r = Some (s + 2))
           \<and> (results = [] \<or> (res_end (last results) = None \<and> res_start (last results) = None)
                  \<longrightarrow> res_start r = Some 0 \<and> res_end r = Some 2))
       \<and> (\<exists>new. align_lines wtl (p, results) ls = Inr (results @ new)
           \<and> length new = length ls
           \<and> (\<forall>k<length ls. res_line (new ! k) = py_strip (ls ! k)
                  \<and> res_start (new ! k) = Some (gap_base results + 2 * real k)
                  \<and> res_end (new ! k) = Some (gap_base results + 2 * real k + 2)))"
proof (intro conjI)
  let ?r = "\<lparr>res_line = py_strip line, res_start = Some (gap_base results),
             res_end = Some (gap_base results + 2)\<rparr>"
  have "align_line wtl (p, results) line = Inr (p, results @ [?r])"
    using assms(1,2) by (intro align_line_exhausted line_words_nonblank)
  then show "\<exists>r. align_line wtl (p, results) line = Inr (p, results @ [r])
           \<and> res_line r = py_strip line
           \<and> res_start r = Some (gap_base results) \<and> res_end r = Some (gap_base results + 2)
           \<and> (\<forall>e. results \<noteq> [] \<and> res_end (last results) = Some e
                  \<longrightarrow> res_start r = Some e \<and> res_end r = Some (e + 2))
           \<and> (\<forall>s. results \<noteq> [] \<and> res_end (last results) = None
                    \<and> res_start (last results) = Some s
                  \<longrightarrow> res_start r = Some s \<and> res_end r = Some (s + 2))
           \<and> (results = [] \<or> (res_end (last results) = None \<and> res_start (last results) = None)
                  \<longrightarrow> res_start r = Some 0 \<and> res_end r = Some 2)"
    using gap_base_cases [of results] by (intro exI [of _ ?r]) auto
next
  let ?new = "map (\<lambda>(k, l). \<lparr>res_line = py_strip l,
                                  res_start = Some (gap_base results + 2 * real k),
                                  res_end = Some (gap_base results + 2 * real k + 2)\<rparr>)
                   (enumerate 0 ls)"
  have "align_lines wtl (p, results) ls = Inr (results @ ?new)"
    using assms(1,3) by (rule gap_run)
  moreover have "length ?new = length ls" by simp
  moreover have "\<forall>k<length ls. res_line (?new ! k) = py_strip (ls ! k)
                  \<and> res_start (?new ! k) = Some (gap_base results + 2 * real k)
                  \<and> res_end (?new ! k) = Some (gap_base results + 2 * real k + 2)"
    by (simp add: nth_enumerate_eq)
  ultimately show "\<exists>new. align_lines wtl (p, results) ls = Inr (results @ new)
           \<and> length new = length ls
           \<and> (\<forall>k<length ls. res_line (new ! k) = py_strip (ls ! k)
                  \<and> res_start (new ! k) = Some (gap_base results + 2 * real k)
                  \<and> res_end (new ! k) = Some (gap_base results + 2 * real k + 2))"
    by blast
qed

text \<open>Claim C4 on a one-word timeline, after its only word has been used: the lines
  \<open>b\<close>, \<open>c\<close>, \<open>d\<close> are given the times 1 to 3, 3 to 5 and 5 to 7.\<close>

theorem gap_filler_synthesis_witness:
  "align_lines (timeline [\<lparr>seg_text = ''a'', seg_start = 0, seg_end = 1\<rparr>])
     (1, [\<lparr>res_line = ''a'', res_start = Some 0, res_end = Some 1\<rparr>]) [''b'', ''c'', ''d'']
   = Inr [\<lparr>res_line = ''a'', res_start = Some 0, res_end = Some 1\<rparr>,
          \<lparr>res_line = ''b'', res_start = Some 1, res_end = Some 3\<rparr>,
          \<lparr>res_line = ''c'', res_start = Some 3, res_end = Some 5\<rparr>,
          \<lparr>res_line = ''d'', res_start = Some 5, res_end = Some 7\<rparr>]
   \<and> (\<exists>r. align_line (timeline [\<lparr>seg_text = ''a'', seg_start = 0, seg_end = 1\<rparr>])
            (1, [\<lparr>res_line = ''a'', res_start = Some 0, res_end = Some 1\<rparr>]) ''b''
          = Inr (1, [\<lparr>res_line = ''a'', res_start = Some 0, res_end = Some 1\<rparr>] @ [r])
        \<and> res_start r = Some 1 \<and> res_end r = Some 3)"
proof -
  let ?wtl = "timeline [\<lparr>seg_text = ''a'', seg_start = 0, seg_end = 1\<rparr>]"
  let ?rs = "[\<lparr>res_line = ''a'', res_start = Some 0, res_end = Some 1\<rparr>]"
  have h1: "length ?wtl \<le> 1" by code_simp
  have h2: "line_words ''b'' \<noteq> []" by code_simp
  have h3: "\<forall>l\<in>set [''b'', ''c'', ''d'']. line_words l \<noteq> []" by code_simp
  have run: "align_lines ?wtl (1, ?rs) [''b'', ''c'', ''d'']
   = Inr [\<lparr>res_line = ''a'', res_start = Some 0, res_end = Some 1\<rparr>,
          \<lparr>res_line = ''b'', res_start = Some 1, res_end = Some 3\<rparr>,
          \<lparr>res_line = ''c'', res_start = Some 3, res_end = Some 5\<rparr>,
          \<lparr>res_line = ''d'', res_start = Some 5, res_end = Some 7\<rparr>]"
    by code_simp
  have l: "?rs \<noteq> [] \<and> res_end (last ?rs) = Some 1" by simp
  from gap_filler_synthesis [OF h1 h2 h3, of ?rs]
  obtain r where r: "align_line ?wtl (1, ?rs) ''b'' = Inr (1, ?rs @ [r])"
    "\<forall>e. ?rs \<noteq> [] \<and> res_end (last ?rs) = Some e
                  \<longrightarrow> res_start r = Some e \<and> res_end r = Some (e + 2)"
    by blast
  from r(2) l have "res_start r = Some 1 \<and> res_end r = Some (1 + 2)" by blast
  then have "res_start r = Some 1 \<and> res_end r = Some 3" by simp
  with r(1) run show ?thesis by blast
qed

text \<open>
  Claim C4 as stated fails on a non-blank line of pure punctuation. After the only word
  of the timeline is used, line \<open>b\<close> is given 1 to 3; line \<open>!\<close> is not blank and finds the
  timeline exhausted, yet gets null timing; and line \<open>c\<close> after it starts again at 0, so
  the synthesized times of the run are not increasing.
\<close>

theorem gap_filler_counterexample:
  "fallback_align [\<lparr>seg_text = ''a'', seg_start = 0, seg_end = 1\<rparr>] [''a'', ''b'', ''!'', ''c'']
     = Inr [\<lparr>res_line = ''a'', res_start = Some 0, res_end = Some 1\<rparr>,
            \<lparr>res_line = ''b'', res_start = Some 1, res_end = Some 3\<rparr>,
            \<lparr>res_line = ''!'', res_start = None, res_end = None\<rparr>,
            \<lparr>res_line = ''c'', res_start = Some 0, res_end = Some 2\<rparr>]
   \<and> py_strip ''!'' \<noteq> []"
  by code_simp

subsection \<open>Null timing and the order of times\<close>

lemma align_line_ordered:
  assumes "chronological wtl"
  shows "\<exists>p' r. align_line wtl (p, rs) line = Inr (p', rs @ [r]) \<and> ordered_result r"
proof -
  consider (blank) "py_strip line = []"
    | (nowords) "py_strip line \<noteq> []" "line_words line = []"
    | (matched) "py_strip line \<noteq> []" "line_words line \<noteq> []" "p < length wtl"
    | (exhausted) "py_strip line \<noteq> []" "line_words line \<noteq> []" "length wtl \<le> p"
    by fastforce
  then show ?thesis
  proof cases
    case blank
    then show ?thesis by (simp add: align_line_blank ordered_result_def)
  next
    case nowords
    then show ?thesis by (simp add: align_line_no_words ordered_result_def)
  next
    case matched
    let ?j = "chosen_offset wtl p line"
    let ?e = "end_index wtl ?j (length (line_words line))"
    have "?j \<le> ?e \<and> ?e < length wtl"
      using matched by (intro end_index_bounds chosen_offset_lt) simp_all
    then have "tok_start (wtl ! ?j) \<le> tok_end (wtl ! ?e)"
      using assms by (simp add: chronological_def)
    then show ?thesis
      using matched by (simp add: align_line_matched ordered_result_def)
  next
    case exhausted
    then show ?thesis by (simp add: align_line_exhausted ordered_result_def)
  qed
qed

lemma align_lines_ordered:
  assumes "chronological wtl"
  shows "\<exists>new. align_lines wtl (p, rs) lines = Inr (rs @ new) \<and> (\<forall>r\<in>set new. ordered_result r)"
proof (induction lines arbitrary: p rs)
  case Nil
  then show ?case by simp
next
  case (Cons line lines)
  obtain p' r where st: "align_line wtl (p, rs) line = Inr (p', rs @ [r])" "ordered_result r"
    using align_line_ordered [OF assms, of p rs line] by blast
  obtain new where new: "align_lines wtl (p', rs @ [r]) lines = Inr ((rs @ [r]) @ new)"
    "\<forall>r\<in>set new. ordered_result r"
    using Cons.IH [of p' "rs @ [r]"] by blast
  show ?case
    using st new by (intro exI [of _ "r # new"]) simp
qed

lemma ordered_result_iff:
  "ordered_result r \<longleftrightarrow>
     (res_start r = None \<longleftrightarrow> res_end r = None)
     \<and> (\<forall>s e. res_start r = Some s \<and> res_end r = Some e \<longrightarrow> s \<le> e)"
  by (cases "res_start r"; cases "res_end r") (simp_all add: ordered_result_def)

text \<open>
  Claim C5, as amended: the segments are required not to overlap. For every segment list
  in which each segment has \<open>end \<ge> start\<close> and ends no later than every later segment
  starts, and for every list of lyric lines, each result of \<open>fallback_align\<close> has a null
  start exactly when it has a null end, and \<open>end \<ge> start\<close> when both are set.
\<close>

theorem null_timing_and_order:
  assumes "\<forall>s\<in>set segs. seg_start s \<le> seg_end s"
    and "sorted_wrt (\<lambda>a b. seg_end a \<le> seg_start b) segs"
  shows "\<exists>rs. fallback_align segs lines = Inr rs
     \<and> (\<forall>r\<in>set rs. (res_start r = None \<longleftrightarrow> res_end r = None)
            \<and> (\<forall>s e. res_start r = Some s \<and> res_end r = Some e \<longrightarrow> s \<le> e))"
proof -
  have chr: "chronological (timeline segs)"
    using assms by (rule timeline_chronological)
  from fallback_align_cases [of segs lines] show ?thesis
  proof (elim disjE conjE exE)
    assume "fallback_align segs lines
        = Inr (map (\<lambda>l. \<lparr>res_line = l, res_start = None, res_end = None\<rparr>) lines)"
    then show ?thesis by auto
  next
    fix a
    assume fa: "fallback_align segs lines = align_lines (timeline segs) (a, []) lines"
    obtain new where new: "align_lines (timeline segs) (a, []) lines = Inr ([] @ new)"
      "\<forall>r\<in>set new. ordered_result r"
      using align_lines_ordered [OF chr, of a "[]" lines] by blast
    then show ?thesis using fa by (auto simp: ordered_result_iff)
  qed
qed

text \<open>Claim C5 on two segments that follow each other and four lines, the last of which
  finds the timeline exhausted.\<close>

theorem null_timing_and_order_witness:
  "\<exists>rs. fallback_align [\<lparr>seg_text = ''a b'', seg_start = 0, seg_end = 2\<rparr>,
                         \<lparr>seg_text = ''c'', seg_start = 2, seg_end = 3\<rparr>]
          [''a b'', '''', ''c'', ''d''] = Inr rs
     \<and> rs = [\<lparr>res_line = ''a b'', res_start = Some 0, res_end = Some 2\<rparr>,
             \<lparr>res_line = '''', res_start = None, res_end = None\<rparr>,
             \<lparr>res_line = ''c'', res_start = Some 2, res_end = Some 3\<rparr>,
             \<lparr>res_line = ''d'', res_start = Some 3, res_end = Some 5\<rparr>]
     \<and> (\<forall>r\<in>set rs. (res_start r = None \<longleftrightarrow> res_end r = None)
            \<and> (\<forall>s e. res_start r = Some s \<and> res_end r = Some e \<longrightarrow> s \<le> e))"
proof -
  let ?S = "[\<lparr>seg_text = ''a b'', seg_start = 0, seg_end = 2\<rparr>,
             \<lparr>seg_text = ''c'', seg_start = 2, seg_end = 3\<rparr>]"
  have h1: "\<forall>s\<in>set ?S. seg_start s \<le> seg_end s" by simp
  have h2: "sorted_wrt (\<lambda>a b. seg_end a \<le> seg_start b) ?S" by simp
  have r: "fallback_align ?S [''a b'', '''', ''c'', ''d'']
     = Inr [\<lparr>res_line = ''a b'', res_start = Some 0, res_end = Some 2\<rparr>,
             \<lparr>res_line = '''', res_start = None, res_end = None\<rparr>,
             \<lparr>res_line = ''c'', res_start = Some 2, res_end = Some 3\<rparr>,
             \<lparr>res_line = ''d'', res_start = Some 3, res_end = Some 5\<rparr>]"
    by code_simp
  from null_timing_and_order [OF h1 h2, of "[''a b'', '''', ''c'', ''d'']"] r
  show ?thesis by (metis sum.inject(2))
qed

text \<open>
  Claim C5 as stated fails on segments that are in chronological order, by their start
  times and by their end times, and overlap. The segments below start at 0 and 1 and end
  at 8 and 9; the line \<open>d e\<close> is matched from the last word of the first segment, which
  starts at 6, to the first word of the second, which ends at 3.
\<close>

theorem null_timing_and_order_counterexample:
  "fallback_align [\<lparr>seg_text = ''a b c d'', seg_start = 0, seg_end = 8\<rparr>,
                   \<lparr>seg_text = ''e f g h'', seg_start = 1, seg_end = 9\<rparr>] [''d e'']
     = Inr [\<lparr>res_line = ''d e'', res_start = Some 6, res_end = Some 3\<rparr>]"
  by code_simp

subsection \<open>The core search of the line matcher\<close>

text \<open>
  Claim C1. For a non-empty timeline and a line with at least one normalized word, at
  pointer \<open>p\<close>: every candidate offset \<open>j\<close> (from \<open>p\<close>, fewer than 50 of them, within the
  timeline, with room for the \<open>m\<close> words of the line) is scored by the sum of the word
  similarities of the line's words with the timeline words from \<open>j\<close> on, the sum being
  the program's sum of doubles in the order of the words; the search returns \<open>p\<close> when
  there is no candidate, and otherwise a candidate of greatest score before which every
  candidate scores strictly less (with all scores 0 this is \<open>p\<close>); and when \<open>p\<close> lies
  within the timeline, the loop body emits the start of the token at the chosen offset
  and the end of the token at \<open>min (j + m - 1) (|timeline| - 1)\<close>, and moves the pointer
  just past that token.
\<close>

theorem line_matcher_core_search:
  assumes "wtl \<noteq> []" and "line_words line \<noteq> []"
  shows "\<exists>bs j. search wtl (line_words line) [p..<min (p + 50) (length wtl)] (0, p) = Inr (bs, j)
     \<and> (\<forall>c\<in>lm_candidates wtl (line_words line) p.
           line_score wtl c (enumerate 0 (line_words line)) 0
             = Inr (lm_score wtl (line_words line) c))
     \<and> (lm_candidates wtl (line_words line) p = {} \<longrightarrow> j = p)
     \<and> (lm_candidates wtl (line_words line) p \<noteq> {} \<longrightarrow>
           j \<in> lm_candidates wtl (line_words line) p
           \<and> bs = lm_score wtl (line_words line) j
           \<and> (\<forall>c\<in>lm_candidates wtl (line_words line) p.
                 lm_score wtl (line_words line) c \<le> lm_score wtl (line_words line) j)
           \<and> (\<forall>c\<in>lm_candidates wtl (line_words line) p.
                 c < j \<longrightarrow> lm_score wtl (line_words line) c < lm_score wtl (line_words line) j))
     \<and> ((\<forall>c\<in>lm_candidates wtl (line_words line) p. lm_score wtl (line_words line) c = 0)
           \<longrightarrow> j = p)
     \<and> (p < length wtl \<longrightarrow>
           align_line wtl (p, results) line
             = Inr (end_index wtl j (length (line_words line)) + 1,
                    results @ [\<lparr>res_line = py_strip line,
                       res_start = Some (tok_start (wtl ! j)),
                       res_end = Some (tok_end (wtl ! end_index wtl j
                                                         (length (line_words line))))\<rparr>]))"
proof -
  let ?ws = "line_words line"
  let ?C = "lm_candidates wtl ?ws p"
  let ?r = "scan_best (lm_score wtl ?ws)
              [p..<min (min (p + 50) (length wtl)) (Suc (length wtl) - length ?ws)] (0, p)"
  have s: "search wtl ?ws [p..<min (p + 50) (length wtl)] (0, p) = Inr (fst ?r, snd ?r)"
    by (simp add: search_pointer)
  have j: "snd ?r = chosen_offset wtl p line" by (simp add: chosen_offset_eq)
  note sp = scan_pointer_spec [of wtl ?ws p]
  have sc: "\<forall>c\<in>?C. line_score wtl c (enumerate 0 ?ws) 0 = Inr (lm_score wtl ?ws c)"
    by (auto simp: lm_candidates_def intro: line_score_fits)
  have none: "?C = {} \<longrightarrow> snd ?r = p" using sp by simp
  have some: "?C \<noteq> {} \<longrightarrow> snd ?r \<in> ?C \<and> fst ?r = lm_score wtl ?ws (snd ?r)
           \<and> (\<forall>c\<in>?C. lm_score wtl ?ws c \<le> lm_score wtl ?ws (snd ?r))
           \<and> (\<forall>c\<in>?C. c < snd ?r \<longrightarrow> lm_score wtl ?ws c < lm_score wtl ?ws (snd ?r))"
    using sp by blast
  have zero: "(\<forall>c\<in>?C. lm_score wtl ?ws c = 0) \<longrightarrow> snd ?r = p"
  proof
    assume z: "\<forall>c\<in>?C. lm_score wtl ?ws c = 0"
    show "snd ?r = p"
    proof (cases "?C = {}")
      case True
      then show ?thesis using none by simp
    next
      case False
      then have pc: "p \<in> ?C" using lm_candidates_least by blast
      have in_c: "snd ?r \<in> ?C" using some False by blast
      have "\<not> p < snd ?r"
      proof
        assume "p < snd ?r"
        then have "lm_score wtl ?ws p < lm_score wtl ?ws (snd ?r)"
          using some False pc by blast
        then show False using z pc in_c by simp
      qed
      moreover have "p \<le> snd ?r" using in_c by (simp add: lm_candidates_def)
      ultimately show ?thesis by simp
    qed
  qed
  have emit: "p < length wtl \<longrightarrow>
           align_line wtl (p, results) line
             = Inr (end_index wtl (snd ?r) (length ?ws) + 1,
                    results @ [\<lparr>res_line = py_strip line,
                       res_start = Some (tok_start (wtl ! snd ?r)),
                       res_end = Some (tok_end (wtl ! end_index wtl (snd ?r) (length ?ws)))\<rparr>])"
    unfolding j using assms(2) by (simp add: align_line_matched line_words_nonblank)
  show ?thesis
    using s sc none some zero emit by (intro exI [of _ "fst ?r"] exI [of _ "snd ?r"]) blast
qed

text \<open>Scenario 1 of the specification as an instance of claim C1: one segment
  \<open>hello world\<close> from 0 to 2, and the line \<open>hello world\<close> at pointer 0.\<close>

theorem line_matcher_core_search_witness:
  "timeline [\<lparr>seg_text = ''hello world'', seg_start = 0, seg_end = 2\<rparr>] \<noteq> []
   \<and> line_words ''hello world'' \<noteq> []
   \<and> lm_candidates (timeline [\<lparr>seg_text = ''hello world'', seg_start = 0, seg_end = 2\<rparr>])
        (line_words ''hello world'') 0 = {0}
   \<and> search (timeline [\<lparr>seg_text = ''hello world'', seg_start = 0, seg_end = 2\<rparr>])
        (line_words ''hello world'') [0..<2] (0, 0) = Inr (2, 0)
   \<and> align_line (timeline [\<lparr>seg_text = ''hello world'', seg_start = 0, seg_end = 2\<rparr>]) (0, [])
        ''hello world''
       = Inr (2, [\<lparr>res_line = ''hello world'', res_start = Some 0, res_end = Some 2\<rparr>])"
proof -
  let ?wtl = "timeline [\<lparr>seg_text = ''hello world'', seg_start = 0, seg_end = 2\<rparr>]"
  let ?line = "''hello world''"
  have wtl: "?wtl = [\<lparr>tok_word = ''hello'', tok_start = 0, tok_end = 1\<rparr>,
                     \<lparr>tok_word = ''world'', tok_start = 1, tok_end = 2\<rparr>]"
    by code_simp
  have lw: "line_words ?line = [''hello'', ''world'']" by code_simp
  have h1: "?wtl \<noteq> []" by (simp add: wtl)
  have h2: "line_words ?line \<noteq> []" by (simp add: lw)
  have c: "lm_candidates ?wtl (line_words ?line) 0 = {0}"
    by (auto simp: lm_candidates_def wtl lw)
  have "min (0 + 50) (length ?wtl) = 2" by (simp add: wtl)
  then have rng: "[0..<min (0 + 50) (length ?wtl)] = [0..<2]" by (simp only:)
  have s: "search ?wtl (line_words ?line) [0..<2] (0, 0) = Inr (2, 0)" by code_simp
  from line_matcher_core_search [OF h1 h2, of 0 "[]"]
  obtain bs j where bj:
    "search ?wtl (line_words ?line) [0..<min (0 + 50) (length ?wtl)] (0, 0) = Inr (bs, j)"
    "0 < length ?wtl \<longrightarrow>
           align_line ?wtl (0, []) ?line
             = Inr (end_index ?wtl j (length (line_words ?line)) + 1,
                    [] @ [\<lparr>res_line = py_strip ?line,
                       res_start = Some (tok_start (?wtl ! j)),
                       res_end = Some (tok_end (?wtl ! end_index ?wtl j
                                                         (length (line_words ?line))))\<rparr>])"
    by blast
  from bj(1) s have j: "j = 0" by (simp only: rng) simp
  have st: "py_strip ?line = ?line" by code_simp
  have "align_line ?wtl (0, []) ?line
       = Inr (2, [\<lparr>res_line = ''hello world'', res_start = Some 0, res_end = Some 2\<rparr>])"
    using bj(2) unfolding j st by (simp add: wtl lw end_index_def)
  then show ?thesis using h1 h2 c s by blast
qed

text \<open>
  The scores are compared as the program has them. On the timeline \<open>fga bdcf aeb\<close> and
  the line \<open>ec fdeb\<close> the two candidates score \<open>0 + 3/5\<close> and \<open>1/5 + 2/5\<close>, which are
  equal as real numbers; as doubles the second sum is the greater by one unit in the last
  place, so the strict comparison moves to offset 1 and the line gets the times 1 to 3.
\<close>

lemma line_matcher_double_sum_example:
  "lm_score (timeline [\<lparr>seg_text = ''fga bdcf aeb'', seg_start = 0, seg_end = 3\<rparr>])
      (line_words ''ec fdeb'') 0 = 5404319552844595 / 9007199254740992
   \<and> lm_score (timeline [\<lparr>seg_text = ''fga bdcf aeb'', seg_start = 0, seg_end = 3\<rparr>])
      (line_words ''ec fdeb'') 1 = 1351079888211149 / 2251799813685248
   \<and> chosen_offset (timeline [\<lparr>seg_text = ''fga bdcf aeb'', seg_start = 0, seg_end = 3\<rparr>])
      0 ''ec fdeb'' = 1
   \<and> fallback_align [\<lparr>seg_text = ''fga bdcf aeb'', seg_start = 0, seg_end = 3\<rparr>] [''ec fdeb'']
     = Inr [\<lparr>res_line = ''ec fdeb'', res_start = Some 1, res_end = Some 3\<rparr>]"
  by code_simp

subsection \<open>The anchor locator\<close>

text \<open>
  Claim C3, as amended: the reference words are those of the non-blank lines among the
  first three lyric lines. For a non-empty timeline, \<open>find_anchor\<close> returns an index below
  \<open>min 50 |timeline|\<close> whose score, the number of reference words that occur as a substring
  of the string joining up to 15 timeline words from that index on, is greatest among the
  indices below \<open>min 50 |timeline|\<close> and strictly greater than the score of every smaller
  index; it is 0 when no index scores above 0.
\<close>

theorem anchor_locator:
  assumes "wtl \<noteq> []"
  shows "\<exists>a. find_anchor wtl lines = Inr a
     \<and> py_split (first_few lines) = ref_words lines
     \<and> a < min 50 (length wtl)
     \<and> (\<forall>i<min 50 (length wtl). anchor_score wtl (ref_words lines) i
                                  \<le> anchor_score wtl (ref_words lines) a)
     \<and> (\<forall>i<a. anchor_score wtl (ref_words lines) i < anchor_score wtl (ref_words lines) a)
     \<and> ((\<forall>i<min 50 (length wtl). anchor_score wtl (ref_words lines) i = 0) \<longrightarrow> a = 0)"
proof -
  from find_anchor_spec [OF assms, of lines]
  obtain a where a: "find_anchor wtl lines = Inr a" "a < min 50 (length wtl)"
    "\<forall>i<min 50 (length wtl). anchor_score wtl (ref_words lines) i
                                  \<le> anchor_score wtl (ref_words lines) a"
    "\<forall>i<a. anchor_score wtl (ref_words lines) i < anchor_score wtl (ref_words lines) a"
    by blast
  have "(\<forall>i<min 50 (length wtl). anchor_score wtl (ref_words lines) i = 0) \<longrightarrow> a = 0"
  proof
    assume z: "\<forall>i<min 50 (length wtl). anchor_score wtl (ref_words lines) i = 0"
    show "a = 0"
    proof (rule ccontr)
      assume "a \<noteq> 0"
      then have "anchor_score wtl (ref_words lines) 0 < anchor_score wtl (ref_words lines) a"
        using a(4) by simp
      then show False using z a(2) by simp
    qed
  qed
  then show ?thesis using a first_few_words by blast
qed

text \<open>Claim C3 on a timeline of fifteen words \<open>q\<close> and a last word \<open>z\<close>, and the line
  \<open>z\<close>: the window of index 0 ends before \<open>z\<close>, the window of index 1 holds it.\<close>

theorem anchor_locator_witness:
  "timeline [\<lparr>seg_text = ''q q q q q q q q q q q q q q q z'', seg_start = 0, seg_end = 16\<rparr>] \<noteq> []
   \<and> find_anchor
        (timeline [\<lparr>seg_text = ''q q q q q q q q q q q q q q q z'', seg_start = 0, seg_end = 16\<rparr>])
        [''z''] = Inr 1
   \<and> anchor_score
        (timeline [\<lparr>seg_text = ''q q q q q q q q q q q q q q q z'', seg_start = 0, seg_end = 16\<rparr>])
        (ref_words [''z'']) 0
     < anchor_score
        (timeline [\<lparr>seg_text = ''q q q q q q q q q q q q q q q z'', seg_start = 0, seg_end = 16\<rparr>])
        (ref_words [''z'']) 1"
proof -
  let ?wtl = "timeline [\<lparr>seg_text = ''q q q q q q q q q q q q q q q z'', seg_start = 0, seg_end = 16\<rparr>]"
  have h: "?wtl \<noteq> []" by code_simp
  have f: "find_anchor ?wtl [''z''] = Inr 1" by code_simp
  from anchor_locator [OF h, of "[''z'']"]
  obtain a where a: "find_anchor ?wtl [''z''] = Inr a"
    "\<forall>i<a. anchor_score ?wtl (ref_words [''z'']) i < anchor_score ?wtl (ref_words [''z'']) a"
    by blast
  from a(1) f have "a = 1" by simp
  with a(2) have "anchor_score ?wtl (ref_words [''z'']) 0 < anchor_score ?wtl (ref_words [''z'']) 1"
    by simp
  then show ?thesis using h f by blast
qed

text \<open>
  Claim C3 as stated fails when a blank line is among the first three lyric lines. With
  three blank lines before the line \<open>z\<close>, the first three non-blank lines give the
  reference word \<open>z\<close>, for which index 1 scores above index 0; the code takes the
  non-blank lines among the first three lines, has no reference word, and returns 0.
\<close>

theorem anchor_locator_counterexample:
  "find_anchor
     (timeline [\<lparr>seg_text = ''q q q q q q q q q q q q q q q z'', seg_start = 0, seg_end = 16\<rparr>])
     ['''', '''', '''', ''z''] = Inr 0
   \<and> spec_ref_words ['''', '''', '''', ''z''] = [''z'']
   \<and> ref_words ['''', '''', '''', ''z''] = []
   \<and> anchor_score
        (timeline [\<lparr>seg_text = ''q q q q q q q q q q q q q q q z'', seg_start = 0, seg_end = 16\<rparr>])
        (spec_ref_words ['''', '''', '''', ''z'']) 0 = 0
   \<and> anchor_score
        (timeline [\<lparr>seg_text = ''q q q q q q q q q q q q q q q z'', seg_start = 0, seg_end = 16\<rparr>])
        (spec_ref_words ['''', '''', '''', ''z'']) 1 = 1"
  by code_simp

end
